theory Spec2Isabelle
  imports Main "HOL-Library.Word"
begin

unbundle bit_operations_syntax

section \<open>The data model of \<open>xml_tree.hpp\<close>\<close>

text \<open>
  Error codes are the enumerators of \<open>Tree_Error_e\<close>. The functions of the class return
  them as \<open>int\<close> (and combine them with \<open>|=\<close>), so they are integer constants here.
\<close>

definition ERR_None :: int where "ERR_None = 0"
definition ERR_OverLayer :: int where "ERR_OverLayer = 1"
definition ERR_NullPointer :: int where "ERR_NullPointer = 2"
definition ERR_OverItem :: int where "ERR_OverItem = 3"
definition ERR_NoXmlNode :: int where "ERR_NoXmlNode = 4"
definition ERR_NoXmlAttr :: int where "ERR_NoXmlAttr = 5"
definition ERR_IllegalIndex :: int where "ERR_IllegalIndex = 6"
definition ERR_IllegalId :: int where "ERR_IllegalId = 7"
definition ERR_UsedIndex :: int where "ERR_UsedIndex = 8"
definition ERR_UnregisteredIndex :: int where "ERR_UnregisteredIndex = 9"
definition ERR_UnregisteredItem :: int where "ERR_UnregisteredItem = 10"

lemmas err_defs =
  ERR_None_def ERR_OverLayer_def ERR_NullPointer_def ERR_OverItem_def ERR_NoXmlNode_def
  ERR_NoXmlAttr_def ERR_IllegalIndex_def ERR_IllegalId_def ERR_UsedIndex_def
  ERR_UnregisteredIndex_def ERR_UnregisteredItem_def

text \<open>
  Behaviour that C++ leaves undefined is a value of its own, so that a run which does not
  return a result is a branch of the model and never a silent default.
\<close>

datatype undefined_behaviour =
  NullDereference       \<comment> \<open>a member function called through a null pointer\<close>
  | MissingReturn       \<comment> \<open>control flows off the end of a value-returning function\<close>
  | BufferOverread      \<comment> \<open>\<open>memcmp\<close> runs past the end of a buffer\<close>

datatype Tree_Val_e = VAL_None | VAL_Int | VAL_String | VAL_Double | VAL_NUM

text \<open>
  \<open>Tree_Val_t\<close> is a tag \<open>e_type\<close>, a union \<open>u_val\<close> and \<open>n_memLen\<close>. Every value the
  class creates has the union member that its tag names, so the struct is a datatype with
  one constructor per tag. A \<open>VAL_String\<close> value carries its whole buffer, terminator
  included; \<open>n_memLen\<close> is the size of that buffer. A \<open>double\<close> is its 64-bit IEEE 754
  pattern. Tags \<open>VAL_None\<close> and \<open>VAL_NUM\<close> leave the union unset.
\<close>

datatype Tree_Val_t =
  Val_None
  | Val_Int "32 word"
  | Val_String "char list"
  | Val_Double "64 word"
  | Val_NUM

fun e_type :: "Tree_Val_t \<Rightarrow> Tree_Val_e" where
  "e_type Val_None = VAL_None"
| "e_type (Val_Int _) = VAL_Int"
| "e_type (Val_String _) = VAL_String"
| "e_type (Val_Double _) = VAL_Double"
| "e_type Val_NUM = VAL_NUM"

datatype Tree_Member_t =
  Tree_Member (s_val: Tree_Val_t) (set_batchIndex: "32 word set")

datatype Tree_Item_t =
  Tree_Item (n_id: "32 word") (str_name: string)
    (l_member: "Tree_Member_t list") (v_childItem: "Tree_Item_t list")

text \<open>The object state of \<open>xmlTree\<close>: the root item and the set of known batch indices.\<close>

record xmlTree =
  s_rootItem :: Tree_Item_t
  tree_batchIndex :: "32 word set"

text \<open>The constructor sets the id of the root to 0; its containers start empty.\<close>

definition xmlTree_new :: xmlTree where
  "xmlTree_new = \<lparr> s_rootItem = Tree_Item 0 [] [] [], tree_batchIndex = {} \<rparr>"

definition C_nMaxLayer :: int where "C_nMaxLayer = 8"
definition C_nMaxItem :: int where "C_nMaxItem = 15"
definition C_nCrorNum :: int where "C_nCrorNum = 4"
definition C_strItemTag :: string where "C_strItemTag = ''Content''"
definition C_strBatchTag :: string where "C_strBatchTag = ''Batch''"
definition C_strIndexTag :: string where "C_strIndexTag = ''index''"
definition C_strNameTag :: string where "C_strNameTag = ''name''"
definition C_strTypeTag :: string where "C_strTypeTag = ''type''"

lemmas const_defs =
  C_nMaxLayer_def C_nMaxItem_def C_nCrorNum_def C_strItemTag_def C_strBatchTag_def
  C_strIndexTag_def C_strNameTag_def C_strTypeTag_def

section \<open>The collaborators: the node tree of rapidxml and the C library\<close>

text \<open>
  A parsed document is a tree of nodes, each with a name, a value, attributes in document
  order and children in document order. \<open>first_attribute\<close> is the value of the first
  attribute of that name, if any. A pointer into a chain of siblings is the list of the
  nodes from that one on; the null pointer is the empty list.
\<close>

datatype xml_node =
  Xml_Node (node_name: string) (node_value: string)
    (node_attributes: "(string \<times> string) list") (node_children: "xml_node list")

definition first_attribute :: "xml_node \<Rightarrow> string \<Rightarrow> string option" where
  "first_attribute node name = map_of (node_attributes node) name"

text \<open>
  A C string ends at its first NUL: this is what \<open>strcmp\<close> compares and what the
  conversion from \<open>char*\<close> to \<open>std::string\<close> keeps.
\<close>

definition c_str :: "string \<Rightarrow> string" where
  "c_str s = takeWhile (\<lambda>c. c \<noteq> CHR 0x00) s"

text \<open>
  \<open>strtol\<close> in base 10, as ISO C describes it, for a 64-bit \<open>long\<close>: leading white
  space, an optional sign, then the longest run of digits; 0 when there is no digit;
  results outside the range of \<open>long\<close> are clamped.
\<close>

definition isspace :: "char \<Rightarrow> bool" where
  "isspace c = (c \<in> set [CHR '' '', CHR 0x09, CHR 0x0A, CHR 0x0B, CHR 0x0C, CHR 0x0D])"

definition isdigit :: "char \<Rightarrow> bool" where
  "isdigit c = (48 \<le> (of_char c :: nat) \<and> (of_char c :: nat) \<le> 57)"

fun strtol_digits :: "string \<Rightarrow> int \<Rightarrow> int" where
  "strtol_digits [] acc = acc"
| "strtol_digits (c # cs) acc =
     (if isdigit c then strtol_digits cs (acc * 10 + (of_char c - 48)) else acc)"

definition strtol :: "string \<Rightarrow> int" where
  "strtol s =
     (case dropWhile isspace s of
        [] \<Rightarrow> 0
      | c # cs \<Rightarrow>
          if c = CHR ''-'' then max (- (2 ^ 63)) (- strtol_digits cs 0)
          else if c = CHR ''+'' then min (2 ^ 63 - 1) (strtol_digits cs 0)
          else min (2 ^ 63 - 1) (strtol_digits (c # cs) 0))"

section \<open>The identifier codec\<close>

text \<open>
  The loop of \<open>_get_parentId\<close> shifts its own parameter \<open>id_child\<close> right by
  \<open>C_nCrorNum\<close> bits until it is 0, counting the rounds in \<open>cror\<close>.
\<close>

lemma drop_bit_4_less: "w \<noteq> 0 \<Longrightarrow> unat (drop_bit 4 w) < unat (w :: 32 word)"
proof -
  assume "w \<noteq> 0"
  then have "0 < unat w" by (simp add: unat_gt_0)
  then have "unat w div 2 ^ 4 < unat w" by simp
  moreover have "unat (drop_bit 4 w) = unat w div 2 ^ 4"
    by (simp add: drop_bit_eq_div unat_div)
  ultimately show ?thesis by simp
qed

function get_parentId_loop :: "int \<Rightarrow> 32 word \<Rightarrow> int \<times> 32 word" where
  "get_parentId_loop cror id_child =
     (if id_child \<noteq> 0 then get_parentId_loop (cror + 1) (drop_bit (nat C_nCrorNum) id_child)
      else (cror, id_child))"
  by pat_completeness auto
termination
  by (relation "measure (\<lambda>(cror, id_child). unat id_child)")
    (auto simp: C_nCrorNum_def drop_bit_4_less)

declare get_parentId_loop.simps [simp del]

definition get_parentId :: "32 word \<Rightarrow> 32 word" where
  "get_parentId id_child =
     (if id_child \<noteq> 0 then
        (case get_parentId_loop 0 id_child of
           (cror, id_child') \<Rightarrow>
             id_child' AND word_of_int (push_bit (nat (C_nCrorNum * (cror - 1))) 1 - 1))
      else 0)"

text \<open>
  The id that \<open>_make_itemTree\<close> gives a child:
  \<open>(item_index << C_nCrorNum * n_layer) | item_parent->n_id\<close>.
\<close>

definition child_id :: "32 word \<Rightarrow> int \<Rightarrow> 32 word \<Rightarrow> 32 word" where
  "child_id item_index n_layer parent_id =
     push_bit (nat (C_nCrorNum * n_layer)) item_index OR parent_id"

section \<open>Values\<close>

text \<open>
  \<open>memcmp\<close> compares the first \<open>n\<close> bytes of two buffers as unsigned bytes and stops at
  the first difference. When a buffer ends before a difference shows and before \<open>n\<close> bytes
  are compared, the call reads past the end of that buffer.
\<close>

fun memcmp :: "char list \<Rightarrow> char list \<Rightarrow> nat \<Rightarrow> undefined_behaviour + int" where
  "memcmp s1 s2 0 = Inr 0"
| "memcmp (c1 # s1) (c2 # s2) (Suc n) =
     (if c1 = c2 then memcmp s1 s2 n
      else if (of_char c1 :: nat) < of_char c2 then Inr (- 1) else Inr 1)"
| "memcmp [] s2 (Suc n) = Inl BufferOverread"
| "memcmp s1 [] (Suc n) = Inl BufferOverread"

text \<open>
  The operator \<open>==\<close> on two \<open>double\<close>s, on their IEEE 754 binary64 patterns: a NaN
  (exponent all ones, fraction not zero) equals nothing, the two zeros are equal, and
  otherwise the patterns must agree.
\<close>

definition double_isnan :: "64 word \<Rightarrow> bool" where
  "double_isnan d =
     (d AND 0x7FF0000000000000 = 0x7FF0000000000000 \<and> d AND 0x000FFFFFFFFFFFFF \<noteq> 0)"

definition double_eq :: "64 word \<Rightarrow> 64 word \<Rightarrow> bool" where
  "double_eq a b =
     (\<not> double_isnan a \<and> \<not> double_isnan b \<and>
      (a = b \<or> (a AND 0x7FFFFFFFFFFFFFFF = 0 \<and> b AND 0x7FFFFFFFFFFFFFFF = 0)))"

text \<open>
  \<open>Tree_Val_t::operator==\<close>. With equal tags the \<open>switch\<close> returns for \<open>VAL_String\<close>,
  \<open>VAL_Int\<close> and \<open>VAL_Double\<close>; its \<open>default\<close> only breaks, and the function ends
  without a \<open>return\<close>.
\<close>

definition operator_eq :: "Tree_Val_t \<Rightarrow> Tree_Val_t \<Rightarrow> undefined_behaviour + bool" where
  "operator_eq this val =
     (if e_type this = e_type val then
        (case (this, val) of
           (Val_String s, Val_String s') \<Rightarrow>
             (case memcmp s s' (length s') of Inl u \<Rightarrow> Inl u | Inr r \<Rightarrow> Inr (r = 0))
         | (Val_Int i, Val_Int i') \<Rightarrow> Inr (i = i')
         | (Val_Double d, Val_Double d') \<Rightarrow> Inr (double_eq d d')
         | _ \<Rightarrow> Inl MissingReturn)
      else Inr False)"

text \<open>
  \<open>_parse_strToType\<close> walks \<open>C_arrValTypeStr = {"", "int", "string", "double"}\<close> and
  returns the first index whose string equals \<open>str_type\<close>, or \<open>VAL_NUM\<close> when none does.
\<close>

definition parse_strToType :: "string \<Rightarrow> Tree_Val_e" where
  "parse_strToType str_type =
     (if c_str str_type = [] then VAL_None
      else if c_str str_type = ''int'' then VAL_Int
      else if c_str str_type = ''string'' then VAL_String
      else if c_str str_type = ''double'' then VAL_Double
      else VAL_NUM)"

text \<open>
  \<open>_set_memberVal\<close> fills the value whose tag is already set. \<open>strtod\<close> is the C
  library's; it is a parameter of the model.
\<close>

definition set_memberVal :: "(string \<Rightarrow> 64 word) \<Rightarrow> string \<Rightarrow> Tree_Val_e \<Rightarrow> Tree_Val_t" where
  "set_memberVal strtod str_val tag =
     (case tag of
        VAL_String \<Rightarrow> Val_String (str_val @ [CHR 0x00])
      | VAL_Int \<Rightarrow> Val_Int (word_of_int (strtol str_val))
      | VAL_Double \<Rightarrow> Val_Double (strtod str_val)
      | VAL_None \<Rightarrow> Val_None
      | VAL_NUM \<Rightarrow> Val_NUM)"

section \<open>Searching the item tree\<close>

text \<open>
  A pointer to an item of the tree is the path to it from the root: the positions to take
  in the successive \<open>v_childItem\<close> vectors. The null pointer is \<open>None\<close>.
\<close>

fun item_at :: "Tree_Item_t \<Rightarrow> nat list \<Rightarrow> Tree_Item_t" where
  "item_at item [] = item"
| "item_at item (i # path) = item_at (v_childItem item ! i) path"

fun update_item :: "(Tree_Item_t \<Rightarrow> Tree_Item_t) \<Rightarrow> nat list \<Rightarrow> Tree_Item_t \<Rightarrow> Tree_Item_t" where
  "update_item f [] item = f item"
| "update_item f (i # path) (Tree_Item n name ms cs) =
     Tree_Item n name ms (cs[i := update_item f path (cs ! i)])"

function search_item_byId_loop ::
  "32 word \<Rightarrow> Tree_Item_t \<Rightarrow> nat list \<Rightarrow> 32 word \<Rightarrow> nat list option" where
  "search_item_byId_loop n_itemId temp_item path temp_id =
     (if temp_id \<noteq> 0 then
        (let index = temp_id AND word_of_int C_nMaxItem in
         if index = 0 \<or> unat index > length (v_childItem temp_item) then None
         else
           (let temp_item' = v_childItem temp_item ! (unat index - 1);
                path' = path @ [unat index - 1] in
            if n_id temp_item' = n_itemId then Some path'
            else search_item_byId_loop n_itemId temp_item' path'
                   (drop_bit (nat C_nCrorNum) temp_id)))
      else None)"
  by pat_completeness auto
termination
  by (relation "measure (\<lambda>(n_itemId, temp_item, path, temp_id). unat temp_id)")
    (auto simp: C_nCrorNum_def drop_bit_4_less)

declare search_item_byId_loop.simps [simp del]

definition search_item_byId :: "Tree_Item_t \<Rightarrow> 32 word \<Rightarrow> nat list option" where
  "search_item_byId s_root n_itemId =
     (if n_itemId = 0 then Some []
      else search_item_byId_loop n_itemId s_root [] n_itemId)"

text \<open>
  \<open>_search_item_byName\<close>: for each child in order, search below the child, then let the
  child itself override that result if its own name matches, and stop at the first child
  that gave a result.
\<close>

fun search_item_byName :: "Tree_Item_t \<Rightarrow> string \<Rightarrow> nat list option"
  and search_item_byName_iter :: "Tree_Item_t list \<Rightarrow> nat \<Rightarrow> string \<Rightarrow> nat list option" where
  "search_item_byName (Tree_Item n name ms cs) str_itemName =
     search_item_byName_iter cs 0 str_itemName"
| "search_item_byName_iter [] i str_itemName = None"
| "search_item_byName_iter (child_item # rest) i str_itemName =
     (let ret_item = search_item_byName child_item str_itemName;
          ret_item = (if c_str (str_name child_item) = c_str str_itemName then Some []
                      else ret_item)
      in case ret_item of
           Some path \<Rightarrow> Some (i # path)
         | None \<Rightarrow> search_item_byName_iter rest (Suc i) str_itemName)"

section \<open>Values of an item\<close>

text \<open>
  \<open>_get_memberVal\<close> copies the value of the first member whose index set holds
  \<open>n_batchIndex\<close> and returns \<open>ERR_None\<close> (here \<open>Inr\<close> of the value), or returns
  \<open>ERR_UnregisteredIndex\<close> (here \<open>Inl\<close>).
\<close>

definition get_memberVal :: "Tree_Item_t \<Rightarrow> 32 word \<Rightarrow> int + Tree_Val_t" where
  "get_memberVal item_member n_batchIndex =
     (case find (\<lambda>member. n_batchIndex \<in> set_batchIndex member) (l_member item_member) of
        Some member \<Rightarrow> Inr (s_val member)
      | None \<Rightarrow> Inl ERR_UnregisteredIndex)"

definition get_batchIndex :: "xml_node \<Rightarrow> 32 word" where
  "get_batchIndex node_batch =
     (case first_attribute node_batch C_strIndexTag of
        Some v \<Rightarrow> word_of_int (strtol v)
      | None \<Rightarrow> 0)"

section \<open>Ingestion\<close>

text \<open>
  \<open>std::find_if\<close> over \<open>l_member\<close> with the predicate \<open>member->s_val == temp_val\<close>: the
  position of the first member that compares equal.
\<close>

fun find_if_val :: "Tree_Member_t list \<Rightarrow> Tree_Val_t \<Rightarrow> undefined_behaviour + nat option" where
  "find_if_val [] temp_val = Inr None"
| "find_if_val (member # rest) temp_val =
     (case operator_eq (s_val member) temp_val of
        Inl u \<Rightarrow> Inl u
      | Inr True \<Rightarrow> Inr (Some 0)
      | Inr False \<Rightarrow>
          (case find_if_val rest temp_val of
             Inl u \<Rightarrow> Inl u
           | Inr None \<Rightarrow> Inr None
           | Inr (Some i) \<Rightarrow> Inr (Some (Suc i))))"

definition add_member :: "Tree_Val_t \<Rightarrow> 32 word \<Rightarrow> nat option \<Rightarrow> Tree_Item_t \<Rightarrow> Tree_Item_t" where
  "add_member temp_val index_batch iter member_item =
     (case member_item of
        Tree_Item n name ms cs \<Rightarrow>
          (case iter of
             None \<Rightarrow> Tree_Item n name (ms @ [Tree_Member temp_val {index_batch}]) cs
           | Some i \<Rightarrow>
               Tree_Item n name
                 (ms[i := Tree_Member (s_val (ms ! i)) (insert index_batch (set_batchIndex (ms ! i)))])
                 cs))"

text \<open>
  \<open>_push_memberVector\<close> handles \<open>node_member\<close> and recurses on its next sibling. The
  state it changes is the item tree below \<open>s_rootItem\<close>.
\<close>

fun push_memberVector ::
  "(string \<Rightarrow> 64 word) \<Rightarrow> xml_node list \<Rightarrow> 32 word \<Rightarrow> Tree_Item_t
     \<Rightarrow> undefined_behaviour + (int \<times> Tree_Item_t)" where
  "push_memberVector strtod [] index_batch s_root = Inr (ERR_None, s_root)"
| "push_memberVector strtod (node_member # next_sibling) index_batch s_root =
     (if \<not> index_batch > 0 then Inr (ERR_IllegalIndex, s_root)
      else case first_attribute node_member C_strNameTag of
        None \<Rightarrow> Inr (ERR_NoXmlAttr, s_root)
      | Some name \<Rightarrow>
          (case search_item_byName s_root name of
             None \<Rightarrow> Inr (ERR_IllegalId, s_root)
           | Some member_item \<Rightarrow>
               if search_item_byId s_root (get_parentId (n_id (item_at s_root member_item))) = None
               then Inr (ERR_IllegalId, s_root)
               else
                 (case get_memberVal (item_at s_root member_item) index_batch of
                    Inr v \<Rightarrow> Inr (ERR_UsedIndex, s_root)
                  | Inl e \<Rightarrow>
                      (case first_attribute node_member C_strTypeTag of
                         None \<Rightarrow> Inr (ERR_NoXmlAttr, s_root)
                       | Some type \<Rightarrow>
                           (let temp_val = set_memberVal strtod (c_str (node_value node_member))
                                             (parse_strToType type)
                            in case find_if_val (l_member (item_at s_root member_item)) temp_val of
                                 Inl u \<Rightarrow> Inl u
                               | Inr iter \<Rightarrow>
                                   push_memberVector strtod next_sibling index_batch
                                     (update_item (add_member temp_val index_batch iter)
                                        member_item s_root))))))"

text \<open>
  \<open>add_batch_fromXmlFile\<close>, from the root node of the parsed document on. The loop visits
  the children named \<open>Batch\<close>. In \<open>ret = _push_memberVector(...) != ERR_None\<close> the
  comparison binds tighter than the assignment, so \<open>ret\<close> receives its truth value.
\<close>

fun add_batch_loop ::
  "(string \<Rightarrow> 64 word) \<Rightarrow> xml_node list \<Rightarrow> int \<Rightarrow> xmlTree
     \<Rightarrow> undefined_behaviour + (int \<times> xmlTree)" where
  "add_batch_loop strtod [] ret t = Inr (ret, t)"
| "add_batch_loop strtod (batch_node # rest) ret t =
     (if node_name batch_node \<noteq> C_strBatchTag then add_batch_loop strtod rest ret t
      else
        (let batch_index = get_batchIndex batch_node in
         case push_memberVector strtod (node_children batch_node) batch_index (s_rootItem t) of
           Inl u \<Rightarrow> Inl u
         | Inr (r, s_root') \<Rightarrow>
             (let ret = (if r \<noteq> ERR_None then 1 else 0) in
              if ret \<noteq> 0 then Inr (ret, t\<lparr>s_rootItem := s_root'\<rparr>)
              else add_batch_loop strtod rest ret
                     (t\<lparr>s_rootItem := s_root',
                        tree_batchIndex := insert batch_index (tree_batchIndex t)\<rparr>))))"

definition add_batch_fromXmlFile ::
  "(string \<Rightarrow> 64 word) \<Rightarrow> xml_node option \<Rightarrow> xmlTree \<Rightarrow> undefined_behaviour + (int \<times> xmlTree)" where
  "add_batch_fromXmlFile strtod root_node t =
     (case root_node of
        None \<Rightarrow> Inl NullDereference
      | Some root \<Rightarrow> add_batch_loop strtod (node_children root) ERR_None t)"

section \<open>Schema construction\<close>

text \<open>
  The loop of \<open>_make_itemTree\<close> over the children named \<open>Content\<close>, with its variables
  \<open>ret\<close>, \<open>last_err\<close>, \<open>cnt_item\<close>, \<open>cnt_legalItem\<close> and \<open>index_set\<close>. The name attribute
  is read through the pointer that \<open>first_attribute\<close> returns without a test.
\<close>

type_synonym make_state = "int \<times> int \<times> int \<times> int \<times> 32 word set"

fun make_itemTree ::
  "xml_node \<Rightarrow> Tree_Item_t \<Rightarrow> int \<Rightarrow> undefined_behaviour + (int \<times> Tree_Item_t)"
  and make_itemTree_loop ::
  "xml_node list \<Rightarrow> Tree_Item_t \<Rightarrow> int \<Rightarrow> make_state
     \<Rightarrow> undefined_behaviour + (make_state \<times> Tree_Item_t)" where
  "make_itemTree (Xml_Node nn nv nas ncs) item_parent n_layer =
     (if n_layer < C_nMaxLayer then
        if ncs = [] \<and> n_layer > 0 then Inr (ERR_None, item_parent)
        else
          (case make_itemTree_loop ncs item_parent n_layer (ERR_NoXmlNode, ERR_None, 0, 0, {}) of
             Inl u \<Rightarrow> Inl u
           | Inr ((ret, last_err, cnt_item, cnt_legalItem, index_set), item_parent') \<Rightarrow>
               if cnt_item \<noteq> 0 \<and> cnt_item = cnt_legalItem then Inr (last_err, item_parent')
               else Inr (ret, item_parent'))
      else Inr (ERR_OverLayer, item_parent))"
| "make_itemTree_loop [] item_parent n_layer st = Inr (st, item_parent)"
| "make_itemTree_loop (child_node # rest) item_parent n_layer
       (ret, last_err, cnt_item, cnt_legalItem, index_set) =
     (if node_name child_node \<noteq> C_strItemTag
      then make_itemTree_loop rest item_parent n_layer
             (ret, last_err, cnt_item, cnt_legalItem, index_set)
      else if cnt_item > C_nMaxItem
      then Inr ((ERR_OverItem, last_err, cnt_item, cnt_legalItem, index_set), item_parent)
      else
        (case first_attribute child_node C_strIndexTag of
           None \<Rightarrow>
             make_itemTree_loop rest item_parent n_layer
               (ERR_NoXmlAttr, last_err, cnt_item + 1, cnt_legalItem, index_set)
         | Some v \<Rightarrow>
             (let item_index = (word_of_int (strtol v) :: 32 word) in
              if item_index \<noteq> 0 \<and> item_index \<le> word_of_int C_nMaxItem
                 \<and> item_index \<notin> index_set
              then
                (case first_attribute child_node C_strNameTag of
                   None \<Rightarrow> Inl NullDereference
                 | Some name \<Rightarrow>
                     (case make_itemTree child_node
                             (Tree_Item (child_id item_index n_layer (n_id item_parent))
                                (c_str name) [] [])
                             (n_layer + 1) of
                        Inl u \<Rightarrow> Inl u
                      | Inr (r, child_item) \<Rightarrow>
                          make_itemTree_loop rest
                            (Tree_Item (n_id item_parent) (str_name item_parent)
                               (l_member item_parent) (v_childItem item_parent @ [child_item]))
                            n_layer
                            (ERR_IllegalIndex, last_err OR r, cnt_item + 1, cnt_legalItem + 1,
                             insert item_index index_set)))
              else
                make_itemTree_loop rest item_parent n_layer
                  (ERR_IllegalIndex, last_err, cnt_item + 1, cnt_legalItem, index_set))))"

text \<open>
  \<open>build_tree_fromXmlFile\<close>, from the root node of the parsed document on; a document
  without a root node gives the null pointer that \<open>_make_itemTree\<close> tests first.
\<close>

definition build_tree_fromXmlFile ::
  "xml_node option \<Rightarrow> xmlTree \<Rightarrow> undefined_behaviour + (int \<times> xmlTree)" where
  "build_tree_fromXmlFile root_node t =
     (case root_node of
        None \<Rightarrow> Inr (ERR_NullPointer, t)
      | Some root \<Rightarrow>
          (case make_itemTree root (s_rootItem t) 0 of
             Inl u \<Rightarrow> Inl u
           | Inr (ret, s_root') \<Rightarrow> Inr (ret, t\<lparr>s_rootItem := s_root'\<rparr>)))"

section \<open>Deletion\<close>

text \<open>
  The member loop of \<open>_delete_membersOfBatch\<close>. The flag \<open>is_delete\<close> is declared before
  the loop and is never reset inside it; a member is erased from the list whenever the
  flag is set.
\<close>

fun delete_members :: "Tree_Member_t list \<Rightarrow> 32 word \<Rightarrow> bool \<Rightarrow> Tree_Member_t list" where
  "delete_members [] n_bathIndex is_delete = []"
| "delete_members (member # rest) n_bathIndex is_delete =
     (let member' = (if n_bathIndex \<in> set_batchIndex member
                     then Tree_Member (s_val member) (set_batchIndex member - {n_bathIndex})
                     else member);
          is_delete' = (if n_bathIndex \<in> set_batchIndex member \<and> set_batchIndex member' = {}
                        then True else is_delete)
      in if is_delete' then delete_members rest n_bathIndex is_delete'
         else member' # delete_members rest n_bathIndex is_delete')"

fun delete_membersOfBatch :: "Tree_Item_t \<Rightarrow> 32 word \<Rightarrow> Tree_Item_t" where
  "delete_membersOfBatch (Tree_Item n name ms cs) n_bathIndex =
     Tree_Item n name (delete_members ms n_bathIndex False)
       (map (\<lambda>child_item. delete_membersOfBatch child_item n_bathIndex) cs)"

definition delete_oneBatch :: "32 word \<Rightarrow> xmlTree \<Rightarrow> int \<times> xmlTree" where
  "delete_oneBatch n_batchIndex t =
     (if n_batchIndex \<in> tree_batchIndex t then
        (0, t\<lparr>s_rootItem := delete_membersOfBatch (s_rootItem t) n_batchIndex,
              tree_batchIndex := tree_batchIndex t - {n_batchIndex}\<rparr>)
      else (ERR_UnregisteredIndex, t))"

section \<open>Example documents\<close>

text \<open>
  The schema with one top-level item \<open>student\<close> of index 1, and the tree built from it.
\<close>

definition schema_student :: xml_node where
  "schema_student =
     Xml_Node ''Root'' [] []
       [Xml_Node ''Content'' [] [(''index'', ''1''), (''name'', ''student'')] []]"

definition tree_student :: xmlTree where
  "tree_student =
     \<lparr> s_rootItem = Tree_Item 0 [] [] [Tree_Item 1 ''student'' [] []], tree_batchIndex = {} \<rparr>"

text \<open>
  Batch 1 sets \<open>student\<close> to the string \<open>Alice\<close>, batch 2 sets it to \<open>Bob\<close>; the tree
  after both.
\<close>

definition values_alice_bob :: xml_node where
  "values_alice_bob =
     Xml_Node ''Root'' [] []
       [Xml_Node ''Batch'' [] [(''index'', ''1'')]
          [Xml_Node ''Member'' ''Alice'' [(''name'', ''student''), (''type'', ''string'')] []],
        Xml_Node ''Batch'' [] [(''index'', ''2'')]
          [Xml_Node ''Member'' ''Bob'' [(''name'', ''student''), (''type'', ''string'')] []]]"

definition tree_alice_bob :: xmlTree where
  "tree_alice_bob =
     \<lparr> s_rootItem = Tree_Item 0 [] []
         [Tree_Item 1 ''student''
            [Tree_Member (Val_String (''Alice'' @ [CHR 0x00])) {1},
             Tree_Member (Val_String (''Bob'' @ [CHR 0x00])) {2}] []],
       tree_batchIndex = {1, 2} \<rparr>"

text \<open>A schema whose only item has index 2.\<close>

definition schema_index2 :: xml_node where
  "schema_index2 =
     Xml_Node ''Root'' [] []
       [Xml_Node ''Content'' [] [(''index'', ''2''), (''name'', ''student'')] []]"

text \<open>A batch whose member names an item that the schema does not have.\<close>

definition values_teacher :: xml_node where
  "values_teacher =
     Xml_Node ''Root'' [] []
       [Xml_Node ''Batch'' [] [(''index'', ''1'')]
          [Xml_Node ''Member'' ''Carol'' [(''name'', ''teacher''), (''type'', ''string'')] []]]"

text \<open>A schema whose only item has an index attribute and no name attribute.\<close>

definition schema_noname :: xml_node where
  "schema_noname =
     Xml_Node ''Root'' [] [] [Xml_Node ''Content'' [] [(''index'', ''1'')] []]"

text \<open>
  Three batch nodes without members: one without index attribute, one with the index
  \<open>seven\<close>, one with the index \<open>5\<close>.
\<close>

definition values_empty_batches :: xml_node where
  "values_empty_batches =
     Xml_Node ''Root'' [] []
       [Xml_Node ''Batch'' [] [] [],
        Xml_Node ''Batch'' [] [(''index'', ''seven'')] [],
        Xml_Node ''Batch'' [] [(''index'', ''5'')] []]"

text \<open>
  Batches 1 and 2 both set \<open>student\<close> to the string \<open>Alice\<close>; the tree after both.
\<close>

definition values_alice_twice :: xml_node where
  "values_alice_twice =
     Xml_Node ''Root'' [] []
       [Xml_Node ''Batch'' [] [(''index'', ''1'')]
          [Xml_Node ''Member'' ''Alice'' [(''name'', ''student''), (''type'', ''string'')] []],
        Xml_Node ''Batch'' [] [(''index'', ''2'')]
          [Xml_Node ''Member'' ''Alice'' [(''name'', ''student''), (''type'', ''string'')] []]]"

definition tree_alice_twice :: xmlTree where
  "tree_alice_twice =
     \<lparr> s_rootItem = Tree_Item 0 [] []
         [Tree_Item 1 ''student''
            [Tree_Member (Val_String (''Alice'' @ [CHR 0x00])) {1, 2}] []],
       tree_batchIndex = {1, 2} \<rparr>"

text \<open>
  Batches 1 and 2 both set \<open>student\<close> to the \<open>double\<close> written \<open>nan\<close>, for which the C
  library's \<open>strtod\<close> returns a quiet NaN (pattern \<open>0x7FF8000000000000\<close>); \<open>strtod_nan\<close>
  agrees with \<open>strtod\<close> on that text, the only one it is applied to. The tree after both.
\<close>

definition strtod_nan :: "string \<Rightarrow> 64 word" where
  "strtod_nan s = (if s = ''nan'' then 0x7FF8000000000000 else 0)"

definition values_nan_twice :: xml_node where
  "values_nan_twice =
     Xml_Node ''Root'' [] []
       [Xml_Node ''Batch'' [] [(''index'', ''1'')]
          [Xml_Node ''Member'' ''nan'' [(''name'', ''student''), (''type'', ''double'')] []],
        Xml_Node ''Batch'' [] [(''index'', ''2'')]
          [Xml_Node ''Member'' ''nan'' [(''name'', ''student''), (''type'', ''double'')] []]]"

definition tree_nan_twice :: xmlTree where
  "tree_nan_twice =
     \<lparr> s_rootItem = Tree_Item 0 [] []
         [Tree_Item 1 ''student''
            [Tree_Member (Val_Double 0x7FF8000000000000) {1},
             Tree_Member (Val_Double 0x7FF8000000000000) {2}] []],
       tree_batchIndex = {1, 2} \<rparr>"

text \<open>
  Batches 1 and 2 both set \<open>student\<close> to the string \<open>Alice\<close>, and batch 3 names the
  unknown item \<open>teacher\<close>.
\<close>

definition values_alice_twice_teacher :: xml_node where
  "values_alice_twice_teacher =
     Xml_Node ''Root'' [] []
       [Xml_Node ''Batch'' [] [(''index'', ''1'')]
          [Xml_Node ''Member'' ''Alice'' [(''name'', ''student''), (''type'', ''string'')] []],
        Xml_Node ''Batch'' [] [(''index'', ''2'')]
          [Xml_Node ''Member'' ''Alice'' [(''name'', ''student''), (''type'', ''string'')] []],
        Xml_Node ''Batch'' [] [(''index'', ''3'')]
          [Xml_Node ''Member'' ''Carol'' [(''name'', ''teacher''), (''type'', ''string'')] []]]"

text \<open>
  Batches 1 and 2 both set \<open>student\<close> to \<open>yes\<close> with the type \<open>bool\<close>, which
  \<open>C_arrValTypeStr\<close> does not list.
\<close>

definition values_untyped_twice :: xml_node where
  "values_untyped_twice =
     Xml_Node ''Root'' [] []
       [Xml_Node ''Batch'' [] [(''index'', ''1'')]
          [Xml_Node ''Member'' ''yes'' [(''name'', ''student''), (''type'', ''bool'')] []],
        Xml_Node ''Batch'' [] [(''index'', ''2'')]
          [Xml_Node ''Member'' ''yes'' [(''name'', ''student''), (''type'', ''bool'')] []]]"

section \<open>States a caller can reach, and what is said of them\<close>

text \<open>
  A path is valid in a tree when every position on it exists in the child vector it
  indexes.
\<close>

fun valid_path :: "Tree_Item_t \<Rightarrow> nat list \<Rightarrow> bool" where
  "valid_path item [] = True"
| "valid_path item (i # path) =
     (i < length (v_childItem item) \<and> valid_path (v_childItem item ! i) path)"

text \<open>
  The public operations of \<open>xmlTree\<close>, called in any order on a new object, with any
  arguments and any return code; an operation that does not return has no successor.
\<close>

inductive reachable :: "(string \<Rightarrow> 64 word) \<Rightarrow> xmlTree \<Rightarrow> bool" for strtod where
  fresh: "reachable strtod xmlTree_new"
| build: "reachable strtod t \<Longrightarrow> build_tree_fromXmlFile root_node t = Inr (ret, t')
            \<Longrightarrow> reachable strtod t'"
| add_batch: "reachable strtod t \<Longrightarrow> add_batch_fromXmlFile strtod root_node t = Inr (ret, t')
            \<Longrightarrow> reachable strtod t'"
| delete: "reachable strtod t \<Longrightarrow> delete_oneBatch n_batchIndex t = (ret, t')
            \<Longrightarrow> reachable strtod t'"

text \<open>The index sets of the members of one item are pairwise disjoint.\<close>

fun members_disjoint :: "Tree_Member_t list \<Rightarrow> bool" where
  "members_disjoint [] = True"
| "members_disjoint (m # ms) =
     ((\<forall>m' \<in> set ms. set_batchIndex m \<inter> set_batchIndex m' = {}) \<and> members_disjoint ms)"

text \<open>No member of an item compares equal to a later member of the same item.\<close>

fun members_distinct :: "Tree_Member_t list \<Rightarrow> bool" where
  "members_distinct [] = True"
| "members_distinct (m # ms) =
     ((\<forall>m' \<in> set ms. operator_eq (s_val m) (s_val m') \<noteq> Inr True) \<and> members_distinct ms)"

text \<open>
  A string value as \<open>_set_memberVal\<close> makes it: the characters of a C string and the
  terminating NUL.
\<close>

fun wf_val :: "Tree_Val_t \<Rightarrow> bool" where
  "wf_val (Val_String s) = (s \<noteq> [] \<and> last s = CHR 0x00 \<and> CHR 0x00 \<notin> set (butlast s))"
| "wf_val v = True"

definition members_ok :: "Tree_Member_t list \<Rightarrow> bool" where
  "members_ok ms =
     (members_disjoint ms \<and> members_distinct ms \<and> (\<forall>m \<in> set ms. wf_val (s_val m)))"

fun all_items :: "(Tree_Member_t list \<Rightarrow> bool) \<Rightarrow> Tree_Item_t \<Rightarrow> bool" where
  "all_items P (Tree_Item n name ms cs) = (P ms \<and> (\<forall>c \<in> set cs. all_items P c))"

text \<open>A value that is a \<open>double\<close> holding a NaN.\<close>

fun val_isnan :: "Tree_Val_t \<Rightarrow> bool" where
  "val_isnan (Val_Double d) = double_isnan d"
| "val_isnan v = False"

text \<open>
  What a member node says: the item it names, resolved as \<open>_push_memberVector\<close> resolves
  it, and the value it carries, parsed as \<open>_push_memberVector\<close> parses it.
\<close>

definition member_item :: "Tree_Item_t \<Rightarrow> xml_node \<Rightarrow> nat list option" where
  "member_item s_root node_member =
     (case first_attribute node_member C_strNameTag of
        None \<Rightarrow> None
      | Some name \<Rightarrow> search_item_byName s_root name)"

definition member_value :: "(string \<Rightarrow> 64 word) \<Rightarrow> xml_node \<Rightarrow> Tree_Val_t option" where
  "member_value strtod node_member =
     (case first_attribute node_member C_strTypeTag of
        None \<Rightarrow> None
      | Some type \<Rightarrow>
          Some (set_memberVal strtod (c_str (node_value node_member)) (parse_strToType type)))"

text \<open>A member carries a value when it holds that very value or compares equal to it.\<close>

definition carries :: "Tree_Member_t \<Rightarrow> Tree_Val_t \<Rightarrow> bool" where
  "carries m v = (s_val m = v \<or> operator_eq (s_val m) v = Inr True)"

text \<open>
  A member list grows into another one when every member keeps its place and its value
  and loses no batch index.
\<close>

definition members_extend :: "Tree_Member_t list \<Rightarrow> Tree_Member_t list \<Rightarrow> bool" where
  "members_extend ms ms' =
     (length ms \<le> length ms' \<and>
      (\<forall>i < length ms. s_val (ms' ! i) = s_val (ms ! i)
                       \<and> set_batchIndex (ms ! i) \<subseteq> set_batchIndex (ms' ! i)))"

text \<open>The schema alone: the item tree without its members.\<close>

fun strip_members :: "Tree_Item_t \<Rightarrow> Tree_Item_t" where
  "strip_members (Tree_Item n name ms cs) = Tree_Item n name [] (map strip_members cs)"

text \<open>
  Any number of calls of \<open>_push_memberVector\<close>, one after another, with any member
  lists, any batch indices and any return codes: this is what ingestion calls do to the
  item tree.
\<close>

inductive pushes :: "(string \<Rightarrow> 64 word) \<Rightarrow> Tree_Item_t \<Rightarrow> Tree_Item_t \<Rightarrow> bool" for strtod where
  none: "pushes strtod s_root s_root"
| more: "pushes strtod s_root s_root1
         \<Longrightarrow> push_memberVector strtod nodes index_batch s_root1 = Inr (ret, s_root2)
         \<Longrightarrow> pushes strtod s_root s_root2"

section \<open>Properties\<close>

lemma get_parentId_loop_snd: "snd (get_parentId_loop cror id_child) = 0"
proof (induction cror id_child rule: get_parentId_loop.induct)
  case (1 cror id_child)
  then show ?case
    by (subst get_parentId_loop.simps) simp
qed

lemma get_parentId_zero: "get_parentId id_child = 0"
proof (cases "get_parentId_loop 0 id_child")
  case (Pair cror w)
  with get_parentId_loop_snd [of 0 id_child] have "w = 0" by simp
  with Pair show ?thesis by (simp add: get_parentId_def)
qed

text \<open>
  C1. The child id packed from parent id \<open>0x1\<close>, layer 1 and sibling index 2 is \<open>0x21\<close>,
  and \<open>_get_parentId\<close> returns 0 for it, not the parent id \<open>0x1\<close>: the loop has consumed
  \<open>id_child\<close> before the mask is applied.
\<close>

theorem get_parentId_loses_parent:
  "child_id 2 1 1 = 0x21 \<and> get_parentId (child_id 2 1 1) = 0 \<and> get_parentId (child_id 2 1 1) \<noteq> 1"
  by (simp add: get_parentId_zero child_id_def C_nCrorNum_def)

subsection \<open>Evaluation on the example documents\<close>

lemmas eval_defs =
  const_defs err_defs first_attribute_def strtol_def isspace_def isdigit_def child_id_def
  c_str_def build_tree_fromXmlFile_def add_batch_fromXmlFile_def get_batchIndex_def
  get_memberVal_def search_item_byId_def get_parentId_zero parse_strToType_def
  set_memberVal_def operator_eq_def add_member_def delete_oneBatch_def xmlTree_new_def

text \<open>
  C2. The schema \<open>student\<close> is built, then batch 1 (\<open>Alice\<close>) and batch 2 (\<open>Bob\<close>) are
  ingested. Before the deletion the value of \<open>student\<close> for batch 2 is \<open>Bob\<close>. Deleting
  batch 1 destroys the member \<open>Alice\<close>, sets \<open>is_delete\<close>, and the flag then also erases
  the member \<open>Bob\<close>, whose index set \<open>{2}\<close> is not empty: batch 2 is still known, yet its
  value is gone.
\<close>

theorem delete_oneBatch_drops_later_member:
  "build_tree_fromXmlFile (Some schema_student) xmlTree_new = Inr (ERR_None, tree_student)
   \<and> add_batch_fromXmlFile strtod (Some values_alice_bob) tree_student
       = Inr (ERR_None, tree_alice_bob)
   \<and> get_memberVal (item_at (s_rootItem tree_alice_bob) [0]) 2
       = Inr (Val_String (''Bob'' @ [CHR 0x00]))
   \<and> delete_oneBatch 1 tree_alice_bob =
       (ERR_None, \<lparr> s_rootItem = Tree_Item 0 [] [] [Tree_Item 1 ''student'' [] []],
                    tree_batchIndex = {2} \<rparr>)
   \<and> get_memberVal (item_at (s_rootItem (snd (delete_oneBatch 1 tree_alice_bob))) [0]) 2
       = Inl ERR_UnregisteredIndex"
  apply (intro conjI)
      apply (simp add: schema_student_def tree_student_def eval_defs)
     apply (simp add: values_alice_bob_def tree_student_def tree_alice_bob_def eval_defs
      insert_commute)
    apply (simp add: tree_alice_bob_def eval_defs)
   apply (simp add: tree_alice_bob_def eval_defs)
  apply (simp add: tree_alice_bob_def eval_defs)
  done

text \<open>
  C3. Construction accepts the schema whose only item has index 2 and gives the item the
  id 2 at position 0 of the root's child vector. \<open>_search_item_byId\<close> takes the field 2
  as a position, finds it beyond the size 1 of the vector, and returns the null pointer.
\<close>

theorem search_item_byId_misses_item:
  "build_tree_fromXmlFile (Some schema_index2) xmlTree_new =
     Inr (ERR_None, \<lparr> s_rootItem = Tree_Item 0 [] [] [Tree_Item 2 ''student'' [] []],
                     tree_batchIndex = {} \<rparr>)
   \<and> n_id (item_at (Tree_Item 0 [] [] [Tree_Item 2 ''student'' [] []]) [0]) = 2
   \<and> search_item_byId (Tree_Item 0 [] [] [Tree_Item 2 ''student'' [] []]) 2 = None"
  apply (intro conjI)
    apply (simp add: schema_index2_def eval_defs)
   apply simp
  apply (simp add: eval_defs search_item_byId_loop.simps)
  done

text \<open>
  C4. For a member that names the unknown item \<open>teacher\<close>, \<open>_push_memberVector\<close> returns
  \<open>ERR_IllegalId\<close> (7), but \<open>add_batch_fromXmlFile\<close> returns 1, the truth value of the
  comparison, which is the code of \<open>ERR_OverLayer\<close>. The batch index is not recorded.
\<close>

theorem add_batch_returns_truth_value:
  "push_memberVector strtod
       [Xml_Node ''Member'' ''Carol'' [(''name'', ''teacher''), (''type'', ''string'')] []] 1
       (s_rootItem tree_student) = Inr (ERR_IllegalId, s_rootItem tree_student)
   \<and> add_batch_fromXmlFile strtod (Some values_teacher) tree_student = Inr (1, tree_student)
   \<and> ERR_IllegalId = 7 \<and> ERR_OverLayer = 1"
  apply (intro conjI)
     apply (simp add: tree_student_def eval_defs)
    apply (simp add: values_teacher_def tree_student_def eval_defs)
   apply (simp_all add: err_defs)
  done

text \<open>
  C5. For an item node with the legal, unused index 1 and no name attribute,
  \<open>_make_itemTree\<close> calls \<open>value()\<close> through the null pointer that \<open>first_attribute\<close>
  returned: it does not return \<open>ERR_NoXmlAttr\<close>, nor any other code.
\<close>

theorem make_itemTree_missing_name:
  "make_itemTree schema_noname (s_rootItem xmlTree_new) 0 = Inl NullDereference
   \<and> build_tree_fromXmlFile (Some schema_noname) xmlTree_new = Inl NullDereference"
  by (simp add: schema_noname_def eval_defs)

text \<open>
  C9. Two values that both carry the tag \<open>VAL_None\<close> (or both \<open>VAL_NUM\<close>) reach the
  \<open>default\<close> branch of the \<open>switch\<close>, and \<open>operator==\<close> ends without returning a value.
\<close>

theorem operator_eq_none_undefined:
  "e_type Val_None = VAL_None \<and> operator_eq Val_None Val_None = Inl MissingReturn
   \<and> operator_eq Val_NUM Val_NUM = Inl MissingReturn"
  by (simp add: operator_eq_def)

subsection \<open>Deletion\<close>

text \<open>
  C8. \<open>delete_oneBatch\<close> returns \<open>ERR_UnregisteredIndex\<close> exactly when the index is not in
  the set of known batches, and then leaves the whole state as it was; otherwise it
  returns \<open>ERR_None\<close> and the index is removed from the set of known batches.
\<close>

theorem delete_oneBatch_atomic:
  "(fst (delete_oneBatch b t) = ERR_UnregisteredIndex \<longleftrightarrow> b \<notin> tree_batchIndex t)
   \<and> (b \<notin> tree_batchIndex t \<longrightarrow> snd (delete_oneBatch b t) = t)
   \<and> (b \<in> tree_batchIndex t \<longrightarrow>
        fst (delete_oneBatch b t) = ERR_None
        \<and> tree_batchIndex (snd (delete_oneBatch b t)) = tree_batchIndex t - {b})"
  by (simp add: delete_oneBatch_def err_defs)

theorem delete_oneBatch_atomic_witness:
  "(3::32 word) \<notin> tree_batchIndex tree_alice_bob
   \<and> delete_oneBatch 3 tree_alice_bob = (ERR_UnregisteredIndex, tree_alice_bob)
   \<and> (2::32 word) \<in> tree_batchIndex tree_alice_bob
   \<and> fst (delete_oneBatch 2 tree_alice_bob) = ERR_None
   \<and> tree_batchIndex (snd (delete_oneBatch 2 tree_alice_bob)) = {1}"
proof -
  have out: "(3::32 word) \<notin> tree_batchIndex tree_alice_bob"
    by (simp add: tree_alice_bob_def)
  have inn: "(2::32 word) \<in> tree_batchIndex tree_alice_bob"
    by (simp add: tree_alice_bob_def)
  have "tree_batchIndex tree_alice_bob - {2} = {1}"
    by (auto simp: tree_alice_bob_def)
  with out inn delete_oneBatch_atomic [of 3 tree_alice_bob]
    delete_oneBatch_atomic [of 2 tree_alice_bob]
  show ?thesis by (simp add: prod_eq_iff)
qed

subsection \<open>Batches without members\<close>

lemma strtol_no_digit:
  assumes "case dropWhile isspace v of
             [] \<Rightarrow> True
           | c # cs \<Rightarrow> \<not> isdigit c \<and> c \<noteq> CHR ''-'' \<and> c \<noteq> CHR ''+''"
  shows "strtol v = 0"
proof (cases "dropWhile isspace v")
  case Nil
  show ?thesis unfolding strtol_def Nil by simp
next
  case (Cons c cs)
  from assms have "\<not> isdigit c \<and> c \<noteq> CHR ''-'' \<and> c \<noteq> CHR ''+''"
    unfolding Cons by simp
  then show ?thesis unfolding strtol_def Cons by simp
qed

text \<open>
  C10. A \<open>Batch\<close> node without children is accepted: \<open>_push_memberVector\<close> receives the
  null pointer and returns \<open>ERR_None\<close> before any check, and the parsed index enters the
  set of known batches. That index is what \<open>strtol\<close> reads from the index attribute,
  taken modulo \<open>2^32\<close>, and 0 when the attribute is missing. A missing index attribute
  and one that does not start with a number both parse to 0, so 0 can become a known
  batch index, although a batch with at least one member is refused with
  \<open>ERR_IllegalIndex\<close> for index 0.
\<close>

theorem empty_batch_registers_index:
  assumes "node_name batch_node = C_strBatchTag" and "node_children batch_node = []"
  shows "add_batch_fromXmlFile strtod (Some (Xml_Node nn nv nas (batch_node # rest))) t =
           add_batch_fromXmlFile strtod (Some (Xml_Node nn nv nas rest))
             (t\<lparr>tree_batchIndex := insert (get_batchIndex batch_node) (tree_batchIndex t)\<rparr>)
         \<and> add_batch_fromXmlFile strtod (Some (Xml_Node nn nv nas [batch_node])) t =
           Inr (ERR_None,
                t\<lparr>tree_batchIndex := insert (get_batchIndex batch_node) (tree_batchIndex t)\<rparr>)
         \<and> (\<forall>v. first_attribute batch_node C_strIndexTag = Some v
                \<longrightarrow> get_batchIndex batch_node = word_of_int (strtol v))
         \<and> (first_attribute batch_node C_strIndexTag = None \<longrightarrow> get_batchIndex batch_node = 0)
         \<and> (\<forall>v. first_attribute batch_node C_strIndexTag = Some v
                \<and> (case dropWhile isspace v of
                      [] \<Rightarrow> True
                    | c # cs \<Rightarrow> \<not> isdigit c \<and> c \<noteq> CHR ''-'' \<and> c \<noteq> CHR ''+'')
                \<longrightarrow> get_batchIndex batch_node = 0)
         \<and> (\<forall>node_member next_sibling s_root.
                push_memberVector strtod (node_member # next_sibling) 0 s_root
                  = Inr (ERR_IllegalIndex, s_root))"
proof (intro conjI allI impI)
  show "add_batch_fromXmlFile strtod (Some (Xml_Node nn nv nas (batch_node # rest))) t =
           add_batch_fromXmlFile strtod (Some (Xml_Node nn nv nas rest))
             (t\<lparr>tree_batchIndex := insert (get_batchIndex batch_node) (tree_batchIndex t)\<rparr>)"
    using assms by (simp add: add_batch_fromXmlFile_def ERR_None_def)
  show "add_batch_fromXmlFile strtod (Some (Xml_Node nn nv nas [batch_node])) t =
           Inr (ERR_None,
                t\<lparr>tree_batchIndex := insert (get_batchIndex batch_node) (tree_batchIndex t)\<rparr>)"
    using assms by (simp add: add_batch_fromXmlFile_def ERR_None_def)
  show "get_batchIndex batch_node = word_of_int (strtol v)"
    if "first_attribute batch_node C_strIndexTag = Some v" for v
    using that by (simp add: get_batchIndex_def)
  show "get_batchIndex batch_node = 0" if "first_attribute batch_node C_strIndexTag = None"
    using that by (simp add: get_batchIndex_def)
  show "get_batchIndex batch_node = 0"
    if "first_attribute batch_node C_strIndexTag = Some v
        \<and> (case dropWhile isspace v of
              [] \<Rightarrow> True
            | c # cs \<Rightarrow> \<not> isdigit c \<and> c \<noteq> CHR ''-'' \<and> c \<noteq> CHR ''+'')" for v
    using that by (simp add: get_batchIndex_def strtol_no_digit)
  show "push_memberVector strtod (node_member # next_sibling) 0 s_root
          = Inr (ERR_IllegalIndex, s_root)" for node_member next_sibling s_root
    by simp
qed

theorem empty_batch_registers_index_witness:
  "node_name (Xml_Node ''Batch'' [] [] []) = C_strBatchTag
   \<and> node_children (Xml_Node ''Batch'' [] [] []) = []
   \<and> add_batch_fromXmlFile (\<lambda>s. 0) (Some values_empty_batches) tree_student
       = Inr (ERR_None, tree_student\<lparr>tree_batchIndex := {0, 5}\<rparr>)
   \<and> get_batchIndex (Xml_Node ''Batch'' [] [] []) = 0
   \<and> get_batchIndex (Xml_Node ''Batch'' [] [(''index'', ''seven'')] []) = 0
   \<and> strtol ''5'' = 5
   \<and> get_batchIndex (Xml_Node ''Batch'' [] [(''index'', ''5'')] []) = 5"
proof -
  let ?b1 = "Xml_Node ''Batch'' [] [] []"
  let ?b2 = "Xml_Node ''Batch'' [] [(''index'', ''seven'')] []"
  let ?b3 = "Xml_Node ''Batch'' [] [(''index'', ''5'')] []"
  let ?t1 = "tree_student\<lparr>tree_batchIndex :=
                 insert (get_batchIndex ?b1) (tree_batchIndex tree_student)\<rparr>"
  let ?t2 = "?t1\<lparr>tree_batchIndex := insert (get_batchIndex ?b2) (tree_batchIndex ?t1)\<rparr>"
  have n1: "node_name ?b1 = C_strBatchTag" and c1: "node_children ?b1 = []"
    by (simp_all add: C_strBatchTag_def)
  have n2: "node_name ?b2 = C_strBatchTag" and c2: "node_children ?b2 = []"
    by (simp_all add: C_strBatchTag_def)
  have n3: "node_name ?b3 = C_strBatchTag" and c3: "node_children ?b3 = []"
    by (simp_all add: C_strBatchTag_def)
  have a1: "first_attribute ?b1 C_strIndexTag = None"
    by (simp add: first_attribute_def)
  have a2: "first_attribute ?b2 C_strIndexTag = Some ''seven''"
    by (simp add: first_attribute_def C_strIndexTag_def)
  have a3: "first_attribute ?b3 C_strIndexTag = Some ''5''"
    by (simp add: first_attribute_def C_strIndexTag_def)
  have d2: "(case dropWhile isspace ''seven'' of
              [] \<Rightarrow> True
            | c # cs \<Rightarrow> \<not> isdigit c \<and> c \<noteq> CHR ''-'' \<and> c \<noteq> CHR ''+'')"
    by (simp add: isspace_def isdigit_def)
  have five: "strtol ''5'' = 5"
    by (simp add: strtol_def isspace_def isdigit_def)
  note s1 = empty_batch_registers_index [OF n1 c1, of "\<lambda>s. 0" "''Root''" "[]" "[]"
      "[?b2, ?b3]" tree_student]
  note s2 = empty_batch_registers_index [OF n2 c2, of "\<lambda>s. 0" "''Root''" "[]" "[]"
      "[?b3]" ?t1]
  note s3 = empty_batch_registers_index [OF n3 c3, of "\<lambda>s. 0" "''Root''" "[]" "[]" "[]" ?t2]
  have i1: "get_batchIndex ?b1 = 0" using s1 a1 by blast
  have i2: "get_batchIndex ?b2 = 0" using s2 a2 d2 by blast
  have "get_batchIndex ?b3 = word_of_int (strtol ''5'')" using s3 a3 by blast
  with five have i3: "get_batchIndex ?b3 = 5" by simp
  have "insert (5::32 word) {0} = {0, 5}" by (rule insert_commute)
  then have "add_batch_fromXmlFile (\<lambda>s. 0) (Some values_empty_batches) tree_student
       = Inr (ERR_None, tree_student\<lparr>tree_batchIndex := {0, 5}\<rparr>)"
    unfolding values_empty_batches_def
    using s1 s2 s3 i1 i2 i3
    by (simp add: tree_student_def add_batch_fromXmlFile_def ERR_None_def)
  with n1 c1 i1 i2 i3 five show ?thesis by simp
qed

subsection \<open>Paths and updates\<close>

lemma all_items_child:
  "all_items P item \<Longrightarrow> i < length (v_childItem item) \<Longrightarrow> all_items P (v_childItem item ! i)"
  by (cases item) simp

lemma all_items_members: "all_items P item \<Longrightarrow> P (l_member item)"
  by (cases item) simp

lemma all_items_item_at:
  "valid_path s_root p \<Longrightarrow> all_items P s_root \<Longrightarrow> all_items P (item_at s_root p)"
  by (induction p arbitrary: s_root) (simp_all add: all_items_child)

lemma all_items_update:
  assumes keep: "\<And>x. v_childItem (f x) = v_childItem x"
  shows "valid_path s_root p \<Longrightarrow> all_items P s_root \<Longrightarrow> P (l_member (f (item_at s_root p)))
         \<Longrightarrow> all_items P (update_item f p s_root)"
proof (induction p arbitrary: s_root)
  case Nil
  obtain n name ms cs where f: "f s_root = Tree_Item n name ms cs" by (cases "f s_root")
  with keep [of s_root] have cs: "cs = v_childItem s_root" by simp
  from Nil.prems(2) have "\<forall>c \<in> set (v_childItem s_root). all_items P c"
    by (cases s_root) simp
  with Nil.prems(3) f cs show ?case by simp
next
  case (Cons i p)
  obtain n name ms cs where r: "s_root = Tree_Item n name ms cs" by (cases s_root)
  with Cons.prems have i: "i < length cs" and v: "valid_path (cs ! i) p"
    and P: "P ms" and all: "\<forall>c \<in> set cs. all_items P c"
    and new: "P (l_member (f (item_at (cs ! i) p)))"
    by simp_all
  from all i have "all_items P (cs ! i)" by simp
  with Cons.IH v new have u: "all_items P (update_item f p (cs ! i))" by blast
  have "\<forall>c \<in> set (cs[i := update_item f p (cs ! i)]). all_items P c"
  proof
    fix c assume "c \<in> set (cs[i := update_item f p (cs ! i)])"
    then have "c = update_item f p (cs ! i) \<or> c \<in> set cs"
      using set_update_subset_insert [of cs i] by blast
    with u all show "all_items P c" by blast
  qed
  with P r show ?case by simp
qed

lemma item_at_update_same:
  "valid_path s_root p \<Longrightarrow> item_at (update_item f p s_root) p = f (item_at s_root p)"
proof (induction p arbitrary: s_root)
  case Nil
  then show ?case by simp
next
  case (Cons i p)
  then show ?case by (cases s_root) simp
qed

lemma l_member_update_other:
  assumes keep: "\<And>x. v_childItem (f x) = v_childItem x"
  shows "q \<noteq> p \<Longrightarrow> l_member (item_at (update_item f p s_root) q) = l_member (item_at s_root q)"
proof (induction p arbitrary: q s_root)
  case Nil
  then obtain j q' where "q = j # q'" by (cases q) auto
  then show ?case by (simp add: keep)
next
  case (Cons i p)
  obtain n name ms cs where r: "s_root = Tree_Item n name ms cs" by (cases s_root)
  show ?case
  proof (cases q)
    case Nil
    with r show ?thesis by simp
  next
    case (Cons j q')
    show ?thesis
    proof (cases "j = i \<and> i < length cs")
      case True
      with Cons Cons.prems \<open>q = j # q'\<close> have "q' \<noteq> p" by simp
      with Cons.IH have "l_member (item_at (update_item f p (cs ! i)) q')
                           = l_member (item_at (cs ! i) q')" by blast
      with True r \<open>q = j # q'\<close> show ?thesis by simp
    next
      case False
      then have "cs[i := update_item f p (cs ! i)] ! j = cs ! j"
        by (cases "j = i") (simp_all add: list_update_beyond)
      with r \<open>q = j # q'\<close> show ?thesis by simp
    qed
  qed
qed

subsection \<open>Search by name\<close>

lemma search_item_byName_valid_aux:
  "(\<forall>p. search_item_byName item name = Some p \<longrightarrow> valid_path item p)"
  "(\<forall>p. search_item_byName_iter cs i name = Some p \<longrightarrow>
        (\<exists>j q. p = (i + j) # q \<and> j < length cs \<and> valid_path (cs ! j) q))"
proof (induction item name and cs i name rule: search_item_byName_search_item_byName_iter.induct)
  case (1 n name ms cs str_itemName)
  then show ?case by auto
next
  case (2 i str_itemName)
  then show ?case by simp
next
  case (3 child_item rest i str_itemName)
  show ?case
  proof (intro allI impI)
    fix p
    assume a: "search_item_byName_iter (child_item # rest) i str_itemName = Some p"
    show "\<exists>j q. p = (i + j) # q \<and> j < length (child_item # rest)
                 \<and> valid_path ((child_item # rest) ! j) q"
    proof (cases "c_str (str_name child_item) = c_str str_itemName")
      case True
      with a have "p = (i + 0) # []" by simp
      then show ?thesis by (intro exI [of _ 0] exI [of _ "[]"]) simp
    next
      case False
      show ?thesis
      proof (cases "search_item_byName child_item str_itemName")
        case (Some path)
        with a False have "p = (i + 0) # path" by simp
        moreover from 3(1) Some have "valid_path child_item path" by blast
        ultimately show ?thesis by (intro exI [of _ 0] exI [of _ path]) simp
      next
        case None
        with a False have "search_item_byName_iter rest (Suc i) str_itemName = Some p" by simp
        moreover have "\<forall>p. search_item_byName_iter rest (Suc i) str_itemName = Some p \<longrightarrow>
          (\<exists>j q. p = (Suc i + j) # q \<and> j < length rest \<and> valid_path (rest ! j) q)"
          using 3(2) [OF refl refl] None False by simp
        ultimately obtain j q where "p = (Suc i + j) # q" "j < length rest" "valid_path (rest ! j) q"
          by blast
        then show ?thesis by (intro exI [of _ "Suc j"] exI [of _ q]) simp
      qed
    qed
  qed
qed

lemma search_item_byName_valid:
  "search_item_byName s_root name = Some p \<Longrightarrow> valid_path s_root p"
  using search_item_byName_valid_aux(1) by blast

subsection \<open>Member lists\<close>

lemma members_disjoint_append:
  "members_disjoint (ms @ [m]) =
     (members_disjoint ms \<and> (\<forall>m' \<in> set ms. set_batchIndex m' \<inter> set_batchIndex m = {}))"
  by (induction ms) auto

lemma members_disjoint_insert:
  "members_disjoint ms \<Longrightarrow> \<forall>m \<in> set ms. b \<notin> set_batchIndex m \<Longrightarrow>
   members_disjoint (ms[i := Tree_Member v (insert b (set_batchIndex (ms ! i)))])"
proof (induction ms arbitrary: i)
  case Nil
  then show ?case by simp
next
  case (Cons m ms)
  show ?case
  proof (cases i)
    case 0
    with Cons.prems show ?thesis by auto
  next
    case (Suc k)
    from Cons have IH: "members_disjoint (ms[k := Tree_Member v (insert b (set_batchIndex (ms ! k)))])"
      by simp
    have "set_batchIndex m \<inter> set_batchIndex m' = {}"
      if "m' \<in> set (ms[k := Tree_Member v (insert b (set_batchIndex (ms ! k)))])" for m'
    proof -
      have "m' = Tree_Member v (insert b (set_batchIndex (ms ! k))) \<and> k < length ms
                      \<or> m' \<in> set ms"
      proof (cases "k < length ms")
        case True
        with that set_update_subset_insert [of ms k] show ?thesis by blast
      next
        case False
        with that show ?thesis by (simp add: list_update_beyond)
      qed
      then show ?thesis
      proof
        assume a: "m' = Tree_Member v (insert b (set_batchIndex (ms ! k))) \<and> k < length ms"
        then have "ms ! k \<in> set ms" by simp
        with Cons.prems(1) have "set_batchIndex m \<inter> set_batchIndex (ms ! k) = {}" by simp
        moreover from Cons.prems(2) have "b \<notin> set_batchIndex m" by simp
        ultimately show ?thesis using a by simp
      next
        assume "m' \<in> set ms"
        with Cons.prems(1) show ?thesis by simp
      qed
    qed
    with IH Suc show ?thesis by simp
  qed
qed

lemma members_distinct_append:
  "members_distinct (ms @ [m]) =
     (members_distinct ms \<and> (\<forall>m' \<in> set ms. operator_eq (s_val m') (s_val m) \<noteq> Inr True))"
  by (induction ms) auto

lemma members_distinct_vals:
  "map s_val ms = map s_val ms' \<Longrightarrow> members_distinct ms = members_distinct ms'"
proof (induction ms arbitrary: ms')
  case Nil
  then show ?case by simp
next
  case (Cons m ms)
  then obtain m' ms'' where ms': "ms' = m' # ms''" and m: "s_val m = s_val m'"
    and r: "map s_val ms = map s_val ms''"
    by (cases ms') auto
  from r have "s_val ` set ms = s_val ` set ms''" by (metis list.set_map)
  then have "(\<forall>x \<in> set ms. operator_eq (s_val m) (s_val x) \<noteq> Inr True)
             = (\<forall>x \<in> set ms''. operator_eq (s_val m') (s_val x) \<noteq> Inr True)"
    using m by (metis (no_types, lifting) image_iff)
  with Cons.IH [OF r] ms' show ?case by simp
qed

lemma map_s_val_insert:
  "map s_val (ms[i := Tree_Member (s_val (ms ! i)) S]) = map s_val ms"
proof (cases "i < length ms")
  case True
  then have "(map s_val ms)[i := s_val (ms ! i)] = map s_val ms"
    by (metis list_update_id nth_map)
  then show ?thesis by (simp add: map_update)
next
  case False
  then show ?thesis by (simp add: list_update_beyond)
qed

lemma find_if_val_None:
  "find_if_val ms v = Inr None \<Longrightarrow> \<forall>m \<in> set ms. operator_eq (s_val m) v = Inr False"
  by (induction ms) (auto split: sum.splits bool.splits option.splits)

lemma find_if_val_Some:
  "find_if_val ms v = Inr (Some i) \<Longrightarrow>
   i < length ms \<and> operator_eq (s_val (ms ! i)) v = Inr True
   \<and> (\<forall>j < i. operator_eq (s_val (ms ! j)) v = Inr False)"
proof (induction ms arbitrary: i)
  case Nil
  then show ?case by simp
next
  case (Cons m ms)
  show ?case
  proof (cases "operator_eq (s_val m) v")
    case (Inl u)
    with Cons.prems show ?thesis by simp
  next
    case (Inr eq)
    show ?thesis
    proof (cases eq)
      case True
      with Inr Cons.prems show ?thesis by simp
    next
      case False
      with Inr Cons.prems obtain k where k: "find_if_val ms v = Inr (Some k)" and i: "i = Suc k"
        by (auto split: sum.splits option.splits)
      from Cons.IH [OF k] Inr False i show ?thesis
        by (auto simp: less_Suc_eq_0_disj)
    qed
  qed
qed

lemma get_memberVal_Inl:
  "get_memberVal item b = Inl e \<Longrightarrow> \<forall>m \<in> set (l_member item). b \<notin> set_batchIndex m"
  by (auto simp: get_memberVal_def find_None_iff split: option.splits)

lemma wf_val_set_memberVal: "wf_val (set_memberVal strtod (c_str x) tag)"
  by (cases tag) (auto simp: set_memberVal_def c_str_def dest: set_takeWhileD)

lemma add_member_keeps:
  "v_childItem (add_member v b iter x) = v_childItem x"
  "n_id (add_member v b iter x) = n_id x"
  "str_name (add_member v b iter x) = str_name x"
  by (cases x; cases iter; simp add: add_member_def)+

lemma members_ok_add_member:
  assumes ok: "members_ok (l_member item)"
    and fresh: "\<forall>m \<in> set (l_member item). b \<notin> set_batchIndex m"
    and found: "find_if_val (l_member item) v = Inr iter"
    and wf: "wf_val v"
  shows "members_ok (l_member (add_member v b iter item))"
proof -
  obtain n name ms cs where item: "item = Tree_Item n name ms cs" by (cases item)
  show ?thesis
  proof (cases iter)
    case None
    with found item have "\<forall>m \<in> set ms. operator_eq (s_val m) v = Inr False"
      using find_if_val_None by simp
    with ok fresh wf item None show ?thesis
      by (auto simp: members_ok_def add_member_def members_disjoint_append
          members_distinct_append)
  next
    case (Some i)
    let ?ms' = "ms[i := Tree_Member (s_val (ms ! i)) (insert b (set_batchIndex (ms ! i)))]"
    have vals: "map s_val ?ms' = map s_val ms" by (rule map_s_val_insert)
    then have img: "s_val ` set ?ms' = s_val ` set ms" by (metis list.set_map)
    have "\<forall>m \<in> set ?ms'. wf_val (s_val m)"
    proof
      fix m assume "m \<in> set ?ms'"
      then have "s_val m \<in> s_val ` set ?ms'" by blast
      with img obtain m0 where "m0 \<in> set ms" "s_val m = s_val m0" by auto
      with ok item show "wf_val (s_val m)" by (simp add: members_ok_def)
    qed
    moreover from ok item have "members_distinct ?ms'"
      using members_distinct_vals [OF vals] by (simp add: members_ok_def)
    moreover from ok fresh item have "members_disjoint ?ms'"
      by (simp add: members_ok_def members_disjoint_insert)
    ultimately show ?thesis using item Some by (simp add: members_ok_def add_member_def)
  qed
qed

subsection \<open>One step of ingestion\<close>

lemma search_item_byId_parent: "search_item_byId s_root (get_parentId n) = Some []"
  by (simp add: search_item_byId_def get_parentId_zero)

lemma push_memberVector_Cons_cases:
  assumes "push_memberVector strtod (node_member # next_sibling) index_batch s_root
             = Inr (ret, s_root')"
  obtains (refused) "s_root' = s_root" "ret \<noteq> ERR_None"
  | (pushed) name p e type iter where
      "index_batch > 0"
      "first_attribute node_member C_strNameTag = Some name"
      "search_item_byName s_root name = Some p"
      "get_memberVal (item_at s_root p) index_batch = Inl e"
      "first_attribute node_member C_strTypeTag = Some type"
      "find_if_val (l_member (item_at s_root p))
         (set_memberVal strtod (c_str (node_value node_member)) (parse_strToType type)) = Inr iter"
      "push_memberVector strtod next_sibling index_batch
         (update_item
            (add_member (set_memberVal strtod (c_str (node_value node_member))
                           (parse_strToType type)) index_batch iter) p s_root)
         = Inr (ret, s_root')"
  using assms
  by (auto simp: search_item_byId_parent err_defs Let_def
      split: if_splits option.splits sum.splits)


lemma push_step_ok:
  assumes inv: "all_items members_ok s_root"
    and p: "search_item_byName s_root name = Some p"
    and e: "get_memberVal (item_at s_root p) b = Inl e"
    and f: "find_if_val (l_member (item_at s_root p)) (set_memberVal strtod (c_str x) tag) = Inr iter"
  shows "all_items members_ok
           (update_item (add_member (set_memberVal strtod (c_str x) tag) b iter) p s_root)"
proof (rule all_items_update)
  show "v_childItem (add_member (set_memberVal strtod (c_str x) tag) b iter y) = v_childItem y" for y
    by (rule add_member_keeps)
  show "valid_path s_root p" using p by (rule search_item_byName_valid)
  then have "members_ok (l_member (item_at s_root p))"
    using inv all_items_item_at all_items_members by blast
  then show "members_ok
      (l_member (add_member (set_memberVal strtod (c_str x) tag) b iter (item_at s_root p)))"
    using get_memberVal_Inl [OF e] f wf_val_set_memberVal by (rule members_ok_add_member)
qed (rule inv)

lemma push_memberVector_ok:
  "all_items members_ok s_root \<Longrightarrow>
   push_memberVector strtod nodes b s_root = Inr (ret, s_root') \<Longrightarrow>
   all_items members_ok s_root'"
proof (induction nodes arbitrary: s_root)
  case Nil
  then show ?case by simp
next
  case (Cons node_member next_sibling)
  from Cons.prems(2) show ?case
  proof (cases rule: push_memberVector_Cons_cases)
    case refused
    with Cons.prems(1) show ?thesis by simp
  next
    case (pushed name p e type iter)
    from Cons.prems(1) pushed(3,4,6) have "all_items members_ok
       (update_item (add_member (set_memberVal strtod (c_str (node_value node_member))
                           (parse_strToType type)) b iter) p s_root)"
      by (rule push_step_ok)
    with pushed(7) show ?thesis by (rule Cons.IH [rotated])
  qed
qed

lemma add_batch_loop_Cons_cases:
  assumes "add_batch_loop strtod (batch_node # rest) ret t = Inr (ret', t')"
  obtains (skipped) "node_name batch_node \<noteq> C_strBatchTag"
      "add_batch_loop strtod rest ret t = Inr (ret', t')"
  | (failed) r s_root' where "node_name batch_node = C_strBatchTag"
      "push_memberVector strtod (node_children batch_node) (get_batchIndex batch_node)
         (s_rootItem t) = Inr (r, s_root')"
      "r \<noteq> ERR_None" "ret' = 1" "t' = t\<lparr>s_rootItem := s_root'\<rparr>"
  | (ingested) s_root' where "node_name batch_node = C_strBatchTag"
      "push_memberVector strtod (node_children batch_node) (get_batchIndex batch_node)
         (s_rootItem t) = Inr (ERR_None, s_root')"
      "add_batch_loop strtod rest 0
         (t\<lparr>s_rootItem := s_root',
            tree_batchIndex := insert (get_batchIndex batch_node) (tree_batchIndex t)\<rparr>)
         = Inr (ret', t')"
  using assms
  by (auto simp: Let_def split: if_splits sum.splits)

lemma add_batch_loop_ok:
  "all_items members_ok (s_rootItem t) \<Longrightarrow>
   add_batch_loop strtod nodes ret t = Inr (ret', t') \<Longrightarrow>
   all_items members_ok (s_rootItem t')"
proof (induction nodes arbitrary: ret t)
  case Nil
  then show ?case by simp
next
  case (Cons batch_node rest)
  from Cons.prems(2) show ?case
  proof (cases rule: add_batch_loop_Cons_cases)
    case skipped
    with Cons.IH Cons.prems(1) show ?thesis by blast
  next
    case (failed r s_root')
    from Cons.prems(1) failed(2) have "all_items members_ok s_root'"
      by (rule push_memberVector_ok)
    with failed(5) show ?thesis by simp
  next
    case (ingested s_root')
    from Cons.prems(1) ingested(2) have "all_items members_ok s_root'"
      by (rule push_memberVector_ok)
    then have "all_items members_ok (s_rootItem (t\<lparr>s_rootItem := s_root',
            tree_batchIndex := insert (get_batchIndex batch_node) (tree_batchIndex t)\<rparr>))"
      by simp
    with ingested(3) Cons.IH show ?thesis by blast
  qed
qed

subsection \<open>Construction and deletion\<close>

lemma make_itemTree_all_items_aux:
  assumes P: "P []"
  shows "(\<forall>ret item'. make_itemTree node item n_layer = Inr (ret, item') \<longrightarrow> all_items P item
            \<longrightarrow> all_items P item')"
    and "(\<forall>st' item'. make_itemTree_loop nodes item n_layer st = Inr (st', item')
            \<longrightarrow> all_items P item \<longrightarrow> all_items P item')"
proof (induction node item n_layer and nodes item n_layer st
    rule: make_itemTree_make_itemTree_loop.induct)
  case (1 nn nv nas ncs item_parent n_layer)
  then show ?case
    by (auto split: if_splits sum.splits prod.splits)
next
  case (2 item_parent n_layer st)
  then show ?case by simp
next
  case (3 child_node rest item_parent n_layer ret last_err cnt_item cnt_legalItem index_set)
  show ?case
  proof (intro allI impI)
    fix st' item'
    assume run: "make_itemTree_loop (child_node # rest) item_parent n_layer
                   (ret, last_err, cnt_item, cnt_legalItem, index_set) = Inr (st', item')"
      and inv: "all_items P item_parent"
    show "all_items P item'"
    proof (cases "node_name child_node \<noteq> C_strItemTag")
      case True
      with run have "make_itemTree_loop rest item_parent n_layer
                   (ret, last_err, cnt_item, cnt_legalItem, index_set) = Inr (st', item')"
        by simp
      with 3(1) [OF True] inv show ?thesis by blast
    next
      case tag: False
      show ?thesis
      proof (cases "cnt_item > C_nMaxItem")
        case True
        with tag run inv show ?thesis by simp
      next
        case cnt: False
        show ?thesis
        proof (cases "first_attribute child_node C_strIndexTag")
          case None
          with tag cnt run have "make_itemTree_loop rest item_parent n_layer
               (ERR_NoXmlAttr, last_err, cnt_item + 1, cnt_legalItem, index_set) = Inr (st', item')"
            by simp
          with 3(2) [OF tag cnt None] inv show ?thesis by blast
        next
          case (Some v)
          let ?index = "word_of_int (strtol v) :: 32 word"
          show ?thesis
          proof (cases "?index \<noteq> 0 \<and> ?index \<le> word_of_int C_nMaxItem \<and> ?index \<notin> index_set")
            case False
            with tag cnt Some run have "make_itemTree_loop rest item_parent n_layer
                 (ERR_IllegalIndex, last_err, cnt_item + 1, cnt_legalItem, index_set)
                 = Inr (st', item')"
              by (simp add: Let_def)
            with 3(5) [OF tag cnt Some refl False] inv show ?thesis by blast
          next
            case legal: True
            from tag cnt Some legal run obtain name where
              name: "first_attribute child_node C_strNameTag = Some name"
              by (auto simp: Let_def split: option.splits)
            let ?child = "Tree_Item (child_id ?index n_layer (n_id item_parent)) (c_str name) [] []"
            from tag cnt Some legal name run obtain r child_item where
              child: "make_itemTree child_node ?child (n_layer + 1) = Inr (r, child_item)"
              by (auto simp: Let_def split: sum.splits)
            have "all_items P ?child" using P by simp
            with 3(3) [OF tag cnt Some refl legal name] child
            have c: "all_items P child_item" by blast
            let ?parent = "Tree_Item (n_id item_parent) (str_name item_parent)
                             (l_member item_parent) (v_childItem item_parent @ [child_item])"
            from inv c have p: "all_items P ?parent" by (cases item_parent) simp
            from tag cnt Some legal name child run
            have "make_itemTree_loop rest ?parent n_layer
                    (ERR_IllegalIndex, last_err OR r, cnt_item + 1, cnt_legalItem + 1,
                     insert ?index index_set) = Inr (st', item')"
              by (simp add: Let_def)
            with 3(4) [OF tag cnt Some refl legal name child refl] p
            show ?thesis by blast
          qed
        qed
      qed
    qed
  qed
qed


lemma make_itemTree_all_items:
  "P [] \<Longrightarrow> make_itemTree node item n_layer = Inr (ret, item') \<Longrightarrow> all_items P item
   \<Longrightarrow> all_items P item'"
  using make_itemTree_all_items_aux(1) by blast

lemma delete_members_sub:
  "x \<in> set (delete_members ms b d) \<Longrightarrow>
   \<exists>y \<in> set ms. s_val x = s_val y \<and> set_batchIndex x \<subseteq> set_batchIndex y"
  by (induction ms arbitrary: d) (auto simp: Let_def split: if_splits)

lemma delete_members_disjoint:
  "members_disjoint ms \<Longrightarrow> members_disjoint (delete_members ms b d)"
proof (induction ms arbitrary: d)
  case Nil
  then show ?case by simp
next
  case (Cons m ms)
  have rest: "members_disjoint (delete_members ms b d')" for d'
    using Cons by simp
  have sep: "S \<inter> set_batchIndex x = {}"
    if "S \<subseteq> set_batchIndex m" and "x \<in> set (delete_members ms b d')" for S x d'
  proof -
    from that(2) obtain y where "y \<in> set ms" "set_batchIndex x \<subseteq> set_batchIndex y"
      using delete_members_sub by blast
    with Cons.prems that(1) show ?thesis by auto
  qed
  show ?case
    using rest sep [of "set_batchIndex m"] sep [of "set_batchIndex m - {b}"]
    by (auto simp: Let_def)
qed

lemma delete_members_distinct:
  "members_distinct ms \<Longrightarrow> members_distinct (delete_members ms b d)"
proof (induction ms arbitrary: d)
  case Nil
  then show ?case by simp
next
  case (Cons m ms)
  have rest: "members_distinct (delete_members ms b d')" for d'
    using Cons by simp
  have sep: "operator_eq (s_val m) (s_val x) \<noteq> Inr True"
    if "x \<in> set (delete_members ms b d')" for x d'
  proof -
    from that obtain y where "y \<in> set ms" "s_val x = s_val y"
      using delete_members_sub by blast
    with Cons.prems show ?thesis by auto
  qed
  show ?case
    using rest sep by (auto simp: Let_def)
qed

lemma delete_members_ok: "members_ok ms \<Longrightarrow> members_ok (delete_members ms b d)"
  unfolding members_ok_def
  using delete_members_disjoint delete_members_distinct delete_members_sub
  by (metis (no_types, lifting))

lemma delete_membersOfBatch_all_items:
  assumes "\<And>ms d. P ms \<Longrightarrow> P (delete_members ms b d)"
  shows "all_items P item \<Longrightarrow> all_items P (delete_membersOfBatch item b)"
  by (induction item) (simp add: assms)

subsection \<open>Every reachable state is well formed\<close>

lemma reachable_ok: "reachable strtod t \<Longrightarrow> all_items members_ok (s_rootItem t)"
proof (induction rule: reachable.induct)
  case fresh
  show ?case by (simp add: xmlTree_new_def members_ok_def)
next
  case (build t root_node ret t')
  have "members_ok []" by (simp add: members_ok_def)
  with build show ?case
    by (auto simp: build_tree_fromXmlFile_def split: option.splits sum.splits
        intro: make_itemTree_all_items)
next
  case (add_batch t root_node ret t')
  then show ?case
    by (auto simp: add_batch_fromXmlFile_def split: option.splits intro: add_batch_loop_ok)
next
  case (delete t n_batchIndex ret t')
  then show ?case
    by (auto simp: delete_oneBatch_def delete_membersOfBatch_all_items delete_members_ok
        split: if_splits)
qed

lemma build_schema_student:
  "build_tree_fromXmlFile (Some schema_student) xmlTree_new = Inr (ERR_None, tree_student)"
  by (simp add: schema_student_def tree_student_def eval_defs)

lemma add_values_alice_bob:
  "add_batch_fromXmlFile strtod (Some values_alice_bob) tree_student
     = Inr (ERR_None, tree_alice_bob)"
  by (simp add: values_alice_bob_def tree_student_def tree_alice_bob_def eval_defs insert_commute)

lemma reachable_tree_student: "reachable strtod tree_student"
  using reachable.fresh build_schema_student by (rule reachable.build)

lemma reachable_tree_alice_bob: "reachable strtod tree_alice_bob"
  using reachable_tree_student add_values_alice_bob by (rule reachable.add_batch)

text \<open>
  C7. In every state that the public operations can reach, the index sets of the members
  of each item are pairwise disjoint; and a member node for an item that already holds a
  value for the batch index is refused with \<open>ERR_UsedIndex\<close>, the tree unchanged.
\<close>

theorem partition_invariant:
  assumes "reachable strtod t"
  shows "(\<forall>p. valid_path (s_rootItem t) p
              \<longrightarrow> members_disjoint (l_member (item_at (s_rootItem t) p)))
         \<and> (\<forall>node_member next_sibling index_batch name p v.
               index_batch > 0
               \<and> first_attribute node_member C_strNameTag = Some name
               \<and> search_item_byName (s_rootItem t) name = Some p
               \<and> get_memberVal (item_at (s_rootItem t) p) index_batch = Inr v
               \<longrightarrow> push_memberVector strtod (node_member # next_sibling) index_batch
                     (s_rootItem t) = Inr (ERR_UsedIndex, s_rootItem t))"
proof (intro conjI allI impI)
  fix p assume "valid_path (s_rootItem t) p"
  with reachable_ok [OF assms] have "members_ok (l_member (item_at (s_rootItem t) p))"
    using all_items_item_at all_items_members by blast
  then show "members_disjoint (l_member (item_at (s_rootItem t) p))"
    by (simp add: members_ok_def)
next
  fix node_member next_sibling index_batch name p v
  assume "index_batch > 0
          \<and> first_attribute node_member C_strNameTag = Some name
          \<and> search_item_byName (s_rootItem t) name = Some p
          \<and> get_memberVal (item_at (s_rootItem t) p) index_batch = Inr v"
  then show "push_memberVector strtod (node_member # next_sibling) index_batch
               (s_rootItem t) = Inr (ERR_UsedIndex, s_rootItem t)"
    by (simp add: search_item_byId_parent)
qed

theorem partition_invariant_witness:
  "reachable (\<lambda>s. 0) tree_alice_bob
   \<and> valid_path (s_rootItem tree_alice_bob) [0]
   \<and> l_member (item_at (s_rootItem tree_alice_bob) [0])
       = [Tree_Member (Val_String (''Alice'' @ [CHR 0x00])) {1},
          Tree_Member (Val_String (''Bob'' @ [CHR 0x00])) {2}]
   \<and> members_disjoint (l_member (item_at (s_rootItem tree_alice_bob) [0]))
   \<and> push_memberVector (\<lambda>s. 0)
        [Xml_Node ''Member'' ''Carol'' [(''name'', ''student''), (''type'', ''string'')] []] 2
        (s_rootItem tree_alice_bob) = Inr (ERR_UsedIndex, s_rootItem tree_alice_bob)"
proof -
  let ?node = "Xml_Node ''Member'' ''Carol'' [(''name'', ''student''), (''type'', ''string'')] []"
  have r: "reachable (\<lambda>s. 0) tree_alice_bob" by (rule reachable_tree_alice_bob)
  have v: "valid_path (s_rootItem tree_alice_bob) [0]" by (simp add: tree_alice_bob_def)
  have l: "l_member (item_at (s_rootItem tree_alice_bob) [0])
       = [Tree_Member (Val_String (''Alice'' @ [CHR 0x00])) {1},
          Tree_Member (Val_String (''Bob'' @ [CHR 0x00])) {2}]"
    by (simp add: tree_alice_bob_def)
  have h: "(2::32 word) > 0
          \<and> first_attribute ?node C_strNameTag = Some ''student''
          \<and> search_item_byName (s_rootItem tree_alice_bob) ''student'' = Some [0]
          \<and> get_memberVal (item_at (s_rootItem tree_alice_bob) [0]) 2
              = Inr (Val_String (''Bob'' @ [CHR 0x00]))"
    by (simp add: tree_alice_bob_def eval_defs)
  from partition_invariant [OF r] v h l show ?thesis
    using r by blast
qed

subsection \<open>Equality of values\<close>

lemma memcmp_zero_take:
  "memcmp a b n = Inr 0 \<Longrightarrow> take n a = take n b \<and> n \<le> length a \<and> n \<le> length b"
  by (induction a b n rule: memcmp.induct) (auto split: if_splits)

lemma memcmp_refl: "memcmp a a (length a) = Inr 0"
  by (induction a) simp_all

lemma wf_string_prefix:
  assumes a: "wf_val (Val_String a)" and b: "wf_val (Val_String b)"
    and pre: "take (length b) a = b"
  shows "a = b"
proof -
  from pre have split: "a = b @ drop (length b) a"
    by (metis append_take_drop_id)
  show ?thesis
  proof (cases "drop (length b) a")
    case Nil
    with split show ?thesis by simp
  next
    case (Cons c cs)
    from b have "b \<noteq> []" and "last b = CHR 0x00" by simp_all
    then have "CHR 0x00 \<in> set b" by (metis last_in_set)
    moreover from split Cons have "butlast a = b @ butlast (c # cs)"
      by (metis butlast_append list.distinct(1))
    ultimately have "CHR 0x00 \<in> set (butlast a)" by simp
    with a show ?thesis by simp
  qed
qed

lemma operator_eq_True_wf:
  assumes "wf_val a" and "wf_val v" and "operator_eq a v = Inr True"
  shows "a = v \<or> (\<exists>d d'. a = Val_Double d \<and> v = Val_Double d' \<and> double_eq d d')"
proof (cases a)
  case (Val_String s)
  with assms(3) obtain s' where v: "v = Val_String s'"
    by (cases v) (simp_all add: operator_eq_def)
  with Val_String assms(3) have "memcmp s s' (length s') = Inr 0"
    by (auto simp: operator_eq_def split: sum.splits)
  then have "take (length s') s = s'" using memcmp_zero_take by fastforce
  with assms(1,2) Val_String v show ?thesis using wf_string_prefix by blast
qed (use assms(3) in \<open>cases v; simp add: operator_eq_def\<close>)+

lemma operator_eq_self:
  "operator_eq v v =
     (case v of
        Val_None \<Rightarrow> Inl MissingReturn
      | Val_NUM \<Rightarrow> Inl MissingReturn
      | Val_Double d \<Rightarrow> Inr (\<not> double_isnan d)
      | _ \<Rightarrow> Inr True)"
  by (cases v) (simp_all add: operator_eq_def memcmp_refl double_eq_def)

lemma operator_eq_self_False: "operator_eq v v = Inr False \<Longrightarrow> val_isnan v"
  by (cases v) (simp_all add: operator_eq_self)

lemma double_eq_euclid: "double_eq a v \<Longrightarrow> double_eq b v \<Longrightarrow> double_eq a b"
  by (auto simp: double_eq_def)

lemma operator_eq_euclid:
  assumes wf: "wf_val a" "wf_val b" "wf_val v"
    and a: "operator_eq a v = Inr True" and b: "operator_eq b v = Inr True"
  shows "operator_eq a b = Inr True"
proof (cases "\<exists>d'. v = Val_Double d'")
  case True
  then obtain d' where v: "v = Val_Double d'" by blast
  from a v obtain d where da: "a = Val_Double d" "double_eq d d'"
    by (cases a) (simp_all add: operator_eq_def)
  from b v obtain e where db: "b = Val_Double e" "double_eq e d'"
    by (cases b) (simp_all add: operator_eq_def)
  from da(2) db(2) have "double_eq d e" by (rule double_eq_euclid)
  with da(1) db(1) show ?thesis by (simp add: operator_eq_def)
next
  case False
  with operator_eq_True_wf [OF wf(1,3) a] have "a = v" by blast
  moreover from False operator_eq_True_wf [OF wf(2,3) b] have "b = v" by blast
  ultimately show ?thesis using a by simp
qed

lemma members_distinct_nth:
  "members_distinct ms \<Longrightarrow> i < j \<Longrightarrow> j < length ms \<Longrightarrow>
   operator_eq (s_val (ms ! i)) (s_val (ms ! j)) \<noteq> Inr True"
proof (induction ms arbitrary: i j)
  case Nil
  then show ?case by simp
next
  case (Cons m ms)
  from Cons.prems(2) obtain j' where j: "j = Suc j'" by (cases j) auto
  show ?case
  proof (cases i)
    case 0
    with Cons.prems j show ?thesis by simp
  next
    case (Suc i')
    with Cons j show ?thesis by simp
  qed
qed

subsection \<open>Ingestion only extends member lists and keeps the schema\<close>

lemma members_extend_refl: "members_extend ms ms"
  by (simp add: members_extend_def)

lemma members_extend_trans:
  "members_extend ms ms' \<Longrightarrow> members_extend ms' ms'' \<Longrightarrow> members_extend ms ms''"
proof -
  assume a: "members_extend ms ms'" and b: "members_extend ms' ms''"
  have "s_val (ms'' ! i) = s_val (ms ! i)
        \<and> set_batchIndex (ms ! i) \<subseteq> set_batchIndex (ms'' ! i)" if "i < length ms" for i
  proof -
    from a that have 1: "s_val (ms' ! i) = s_val (ms ! i)"
      "set_batchIndex (ms ! i) \<subseteq> set_batchIndex (ms' ! i)" "i < length ms'"
      by (simp_all add: members_extend_def)
    from b 1(3) have "s_val (ms'' ! i) = s_val (ms' ! i)"
      "set_batchIndex (ms' ! i) \<subseteq> set_batchIndex (ms'' ! i)"
      by (simp_all add: members_extend_def)
    with 1 show ?thesis by auto
  qed
  moreover from a b have "length ms \<le> length ms''" by (simp add: members_extend_def)
  ultimately show ?thesis by (simp add: members_extend_def)
qed

lemma members_extend_add_member:
  "members_extend (l_member item) (l_member (add_member v b iter item))"
proof -
  obtain n name ms cs where item: "item = Tree_Item n name ms cs" by (cases item)
  show ?thesis
  proof (cases iter)
    case None
    with item show ?thesis
      by (simp add: members_extend_def add_member_def nth_append)
  next
    case (Some k)
    show ?thesis
    proof (cases "k < length ms")
      case True
      with item Some show ?thesis
        by (auto simp: members_extend_def add_member_def nth_list_update)
    next
      case False
      with item Some show ?thesis
        by (simp add: members_extend_def add_member_def list_update_beyond)
    qed
  qed
qed

lemma push_step_extend:
  assumes "valid_path s_root p"
  shows "members_extend (l_member (item_at s_root q))
           (l_member (item_at (update_item (add_member v b iter) p s_root) q))"
proof (cases "q = p")
  case True
  with assms show ?thesis
    by (simp add: item_at_update_same members_extend_add_member)
next
  case False
  then have "l_member (item_at (update_item (add_member v b iter) p s_root) q)
               = l_member (item_at s_root q)"
    by (rule l_member_update_other [rotated]) (rule add_member_keeps)
  then show ?thesis by (simp add: members_extend_refl)
qed

lemma push_memberVector_extend:
  "push_memberVector strtod nodes b s_root = Inr (ret, s_root') \<Longrightarrow>
   members_extend (l_member (item_at s_root q)) (l_member (item_at s_root' q))"
proof (induction nodes arbitrary: s_root)
  case Nil
  then show ?case by (simp add: members_extend_refl)
next
  case (Cons node_member next_sibling)
  from Cons.prems show ?case
  proof (cases rule: push_memberVector_Cons_cases)
    case refused
    then show ?thesis by (simp add: members_extend_refl)
  next
    case (pushed name p e type iter)
    from pushed(3) have "valid_path s_root p" by (rule search_item_byName_valid)
    then have "members_extend (l_member (item_at s_root q))
       (l_member (item_at (update_item
            (add_member (set_memberVal strtod (c_str (node_value node_member))
                           (parse_strToType type)) b iter) p s_root) q))"
      by (rule push_step_extend)
    moreover note Cons.IH [OF pushed(7)]
    ultimately show ?thesis by (rule members_extend_trans)
  qed
qed

lemma add_batch_loop_extend:
  "add_batch_loop strtod nodes ret t = Inr (ret', t') \<Longrightarrow>
   members_extend (l_member (item_at (s_rootItem t) q)) (l_member (item_at (s_rootItem t') q))"
proof (induction nodes arbitrary: ret t)
  case Nil
  then show ?case by (simp add: members_extend_refl)
next
  case (Cons batch_node rest)
  from Cons.prems show ?case
  proof (cases rule: add_batch_loop_Cons_cases)
    case skipped
    with Cons.IH show ?thesis by blast
  next
    case (failed r s_root')
    with push_memberVector_extend [OF failed(2)] show ?thesis by simp
  next
    case (ingested s_root')
    from push_memberVector_extend [OF ingested(2)]
    have "members_extend (l_member (item_at (s_rootItem t) q)) (l_member (item_at s_root' q))" .
    moreover from Cons.IH [OF ingested(3)]
    have "members_extend (l_member (item_at s_root' q)) (l_member (item_at (s_rootItem t') q))"
      by simp
    ultimately show ?thesis by (rule members_extend_trans)
  qed
qed

lemma strip_members_sel:
  "n_id (strip_members x) = n_id x" "str_name (strip_members x) = str_name x"
  "v_childItem (strip_members x) = map strip_members (v_childItem x)"
  by (cases x; simp)+

lemma search_item_byName_strip_aux:
  "search_item_byName (strip_members item) name = search_item_byName item name"
  "search_item_byName_iter (map strip_members cs) i name = search_item_byName_iter cs i name"
proof (induction item name and cs i name
    rule: search_item_byName_search_item_byName_iter.induct)
  case (1 n name ms cs str_itemName)
  then show ?case by simp
next
  case (2 i str_itemName)
  then show ?case by simp
next
  case (3 child_item rest i str_itemName)
  show ?case
  proof (cases "c_str (str_name child_item) = c_str str_itemName")
    case True
    then show ?thesis by (simp add: strip_members_sel)
  next
    case False
    show ?thesis
    proof (cases "search_item_byName child_item str_itemName")
      case None
      with False 3(2) [OF refl refl] have
        "search_item_byName_iter (map strip_members rest) (Suc i) str_itemName
           = search_item_byName_iter rest (Suc i) str_itemName"
        by simp
      with None False 3(1) show ?thesis by (simp add: strip_members_sel)
    next
      case (Some path)
      with False 3(1) show ?thesis by (simp add: strip_members_sel)
    qed
  qed
qed

lemma search_item_byName_shape:
  "strip_members s_root' = strip_members s_root \<Longrightarrow>
   search_item_byName s_root' name = search_item_byName s_root name"
  by (metis search_item_byName_strip_aux(1))

lemma strip_members_update:
  assumes keep: "\<And>x. strip_members (f x) = strip_members x"
  shows "valid_path s_root p \<Longrightarrow> strip_members (update_item f p s_root) = strip_members s_root"
proof (induction p arbitrary: s_root)
  case Nil
  then show ?case by (simp add: keep)
next
  case (Cons i p)
  obtain n name ms cs where r: "s_root = Tree_Item n name ms cs" by (cases s_root)
  with Cons.prems have i: "i < length cs" and v: "valid_path (cs ! i) p" by simp_all
  from Cons.IH [OF v] have "strip_members (update_item f p (cs ! i)) = strip_members (cs ! i)" .
  then have "(map strip_members cs)[i := strip_members (update_item f p (cs ! i))]
               = map strip_members cs"
    using i by (metis list_update_id nth_map)
  with r show ?case by (simp add: map_update)
qed

lemma strip_members_add_member: "strip_members (add_member v b iter x) = strip_members x"
  by (cases x; cases iter; simp add: add_member_def)

lemma push_memberVector_shape:
  "push_memberVector strtod nodes b s_root = Inr (ret, s_root') \<Longrightarrow>
   strip_members s_root' = strip_members s_root"
proof (induction nodes arbitrary: s_root)
  case Nil
  then show ?case by simp
next
  case (Cons node_member next_sibling)
  from Cons.prems show ?case
  proof (cases rule: push_memberVector_Cons_cases)
    case refused
    then show ?thesis by simp
  next
    case (pushed name p e type iter)
    from pushed(3) have "valid_path s_root p" by (rule search_item_byName_valid)
    with Cons.IH [OF pushed(7)] show ?thesis
      by (simp add: strip_members_update strip_members_add_member)
  qed
qed

lemma member_item_shape:
  "strip_members s_root' = strip_members s_root \<Longrightarrow>
   member_item s_root' node = member_item s_root node"
proof -
  assume "strip_members s_root' = strip_members s_root"
  then have "search_item_byName s_root' name = search_item_byName s_root name" for name
    by (rule search_item_byName_shape)
  then show ?thesis by (simp add: member_item_def split: option.splits)
qed

subsection \<open>Two batches with the same value for one item\<close>

lemma member_value_wf: "member_value strtod node = Some v \<Longrightarrow> wf_val v"
  by (auto simp: member_value_def wf_val_set_memberVal split: option.splits)

lemma extend_keeps:
  assumes "members_extend ms ms'" and "k < length ms"
  shows "k < length ms'" and "s_val (ms' ! k) = s_val (ms ! k)"
    and "set_batchIndex (ms ! k) \<subseteq> set_batchIndex (ms' ! k)"
  using assms by (simp_all add: members_extend_def)

lemma add_member_records:
  assumes "find_if_val (l_member item) v = Inr iter"
  shows "\<exists>k < length (l_member (add_member v b iter item)).
           b \<in> set_batchIndex (l_member (add_member v b iter item) ! k)
           \<and> carries (l_member (add_member v b iter item) ! k) v"
proof -
  obtain n name ms cs where item: "item = Tree_Item n name ms cs" by (cases item)
  show ?thesis
  proof (cases iter)
    case None
    with item show ?thesis
      by (intro exI [of _ "length ms"]) (simp add: add_member_def carries_def)
  next
    case (Some i)
    with assms item have "i < length ms" "operator_eq (s_val (ms ! i)) v = Inr True"
      using find_if_val_Some by fastforce+
    with item Some show ?thesis
      by (intro exI [of _ i]) (simp add: add_member_def carries_def)
  qed
qed

lemma find_if_val_unique:
  assumes ok: "members_ok ms" and wf: "wf_val v" and nan: "\<not> val_isnan v"
    and k: "k < length ms" and c: "carries (ms ! k) v"
    and f: "find_if_val ms v = Inr iter"
  shows "iter = Some k"
proof -
  have no_False: "operator_eq (s_val (ms ! k)) v \<noteq> Inr False"
  proof
    assume F: "operator_eq (s_val (ms ! k)) v = Inr False"
    with c have "s_val (ms ! k) = v" by (simp add: carries_def)
    with F have "operator_eq v v = Inr False" by simp
    with nan show False using operator_eq_self_False by blast
  qed
  show ?thesis
  proof (cases iter)
    case None
    with f k have "operator_eq (s_val (ms ! k)) v = Inr False"
      using find_if_val_None nth_mem by blast
    with no_False show ?thesis by simp
  next
    case (Some i)
    with f have i: "i < length ms" "operator_eq (s_val (ms ! i)) v = Inr True"
      "\<forall>j < i. operator_eq (s_val (ms ! j)) v = Inr False"
      using find_if_val_Some by blast+
    have "\<not> k < i" using i(3) no_False by blast
    moreover have "\<not> i < k"
    proof
      assume lt: "i < k"
      from ok have d: "members_distinct ms" and w: "\<forall>m \<in> set ms. wf_val (s_val m)"
        by (simp_all add: members_ok_def)
      from d lt k have ne: "operator_eq (s_val (ms ! i)) (s_val (ms ! k)) \<noteq> Inr True"
        by (rule members_distinct_nth)
      from c show False unfolding carries_def
      proof
        assume "s_val (ms ! k) = v"
        with i(2) ne show False by simp
      next
        assume "operator_eq (s_val (ms ! k)) v = Inr True"
        moreover from w i(1) k have "wf_val (s_val (ms ! i))" "wf_val (s_val (ms ! k))"
          by simp_all
        ultimately have "operator_eq (s_val (ms ! i)) (s_val (ms ! k)) = Inr True"
          using wf i(2) operator_eq_euclid by blast
        with ne show False by simp
      qed
    qed
    ultimately show ?thesis using Some by simp
  qed
qed

lemma push_memberVector_records:
  assumes "push_memberVector strtod nodes b s_root = Inr (ERR_None, s_root')"
    and "node \<in> set nodes"
    and "member_item s_root node = Some p" and "member_value strtod node = Some v"
  shows "\<exists>k < length (l_member (item_at s_root' p)).
           b \<in> set_batchIndex (l_member (item_at s_root' p) ! k)
           \<and> carries (l_member (item_at s_root' p) ! k) v"
  using assms
proof (induction nodes arbitrary: s_root)
  case Nil
  then show ?case by simp
next
  case (Cons node_member next_sibling)
  from Cons.prems(1) show ?case
  proof (cases rule: push_memberVector_Cons_cases)
    case refused
    then show ?thesis by simp
  next
    case (pushed name q e type iter)
    let ?v = "set_memberVal strtod (c_str (node_value node_member)) (parse_strToType type)"
    let ?r = "update_item (add_member ?v b iter) q s_root"
    from pushed(3) have q: "valid_path s_root q" by (rule search_item_byName_valid)
    show ?thesis
    proof (cases "node = node_member")
      case True
      with Cons.prems(3,4) pushed(2,3,5) have pq: "p = q" and v: "v = ?v"
        by (simp_all add: member_item_def member_value_def)
      let ?ms = "l_member (item_at ?r p)"
      from q pq have "item_at ?r p = add_member v b iter (item_at s_root p)"
        by (simp add: item_at_update_same v)
      moreover from pushed(6) pq v have "find_if_val (l_member (item_at s_root p)) v = Inr iter"
        by simp
      ultimately obtain k where k: "k < length ?ms" "b \<in> set_batchIndex (?ms ! k)"
        "carries (?ms ! k) v"
        using add_member_records by metis
      from pushed(7) have ext: "members_extend ?ms (l_member (item_at s_root' p))"
        by (rule push_memberVector_extend)
      from extend_keeps [OF ext k(1)] k(2,3) show ?thesis
        by (intro exI [of _ k]) (auto simp: carries_def)
    next
      case False
      with Cons.prems(2) have "node \<in> set next_sibling" by simp
      moreover from q have "strip_members ?r = strip_members s_root"
        by (simp add: strip_members_update strip_members_add_member)
      then have "member_item ?r node = member_item s_root node"
        by (rule member_item_shape)
      with Cons.prems(3) have "member_item ?r node = Some p" by simp
      ultimately show ?thesis using Cons.IH [OF pushed(7)] Cons.prems(4) by blast
    qed
  qed
qed

lemma push_memberVector_joins:
  assumes "push_memberVector strtod nodes b2 s_root = Inr (ERR_None, s_root')"
    and "node \<in> set nodes"
    and "member_item s_root node = Some p" and "member_value strtod node = Some v"
    and "all_items members_ok s_root" and "\<not> val_isnan v"
    and "k < length (l_member (item_at s_root p))"
    and "b1 \<in> set_batchIndex (l_member (item_at s_root p) ! k)"
    and "carries (l_member (item_at s_root p) ! k) v"
  shows "k < length (l_member (item_at s_root' p))
         \<and> b1 \<in> set_batchIndex (l_member (item_at s_root' p) ! k)
         \<and> b2 \<in> set_batchIndex (l_member (item_at s_root' p) ! k)
         \<and> operator_eq (s_val (l_member (item_at s_root' p) ! k)) v = Inr True"
  using assms
proof (induction nodes arbitrary: s_root)
  case Nil
  then show ?case by simp
next
  case (Cons node_member next_sibling)
  from Cons.prems(1) show ?case
  proof (cases rule: push_memberVector_Cons_cases)
    case refused
    then show ?thesis by simp
  next
    case (pushed name q e type iter)
    let ?v = "set_memberVal strtod (c_str (node_value node_member)) (parse_strToType type)"
    let ?r = "update_item (add_member ?v b2 iter) q s_root"
    let ?ms = "l_member (item_at s_root p)"
    let ?ms1 = "l_member (item_at ?r p)"
    let ?ms' = "l_member (item_at s_root' p)"
    from pushed(3) have q: "valid_path s_root q" by (rule search_item_byName_valid)
    from Cons.prems(5) pushed(3,4,6) have inv: "all_items members_ok ?r"
      by (rule push_step_ok)
    from pushed(7) have ext: "members_extend ?ms1 ?ms'"
      by (rule push_memberVector_extend)
    show ?thesis
    proof (cases "node = node_member")
      case True
      with Cons.prems(3,4) pushed(2,3,5) have pq: "p = q" and v: "v = ?v"
        by (simp_all add: member_item_def member_value_def)
      from q pq Cons.prems(5) have ok: "members_ok ?ms"
        using all_items_item_at all_items_members by blast
      from pushed(6) pq v have f: "find_if_val ?ms v = Inr iter" by simp
      from Cons.prems(4) have wf: "wf_val v" by (rule member_value_wf)
      from ok wf Cons.prems(6,7,9) f have iter: "iter = Some k" by (rule find_if_val_unique)
      with f have eq: "operator_eq (s_val (?ms ! k)) v = Inr True"
        using find_if_val_Some by blast
      from q pq have "item_at ?r p = add_member v b2 iter (item_at s_root p)"
        by (simp add: item_at_update_same v)
      then have ms1: "?ms1 = ?ms[k := Tree_Member (s_val (?ms ! k))
                                      (insert b2 (set_batchIndex (?ms ! k)))]"
        using iter by (cases "item_at s_root p") (simp add: add_member_def)
      with Cons.prems(7,8) eq have 1: "k < length ?ms1" "b1 \<in> set_batchIndex (?ms1 ! k)"
        "b2 \<in> set_batchIndex (?ms1 ! k)" "operator_eq (s_val (?ms1 ! k)) v = Inr True"
        by simp_all
      from extend_keeps [OF ext 1(1)] 1(2,3,4) show ?thesis by auto
    next
      case False
      with Cons.prems(2) have "node \<in> set next_sibling" by simp
      moreover from q have "strip_members ?r = strip_members s_root"
        by (simp add: strip_members_update strip_members_add_member)
      then have "member_item ?r node = member_item s_root node"
        by (rule member_item_shape)
      with Cons.prems(3) have "member_item ?r node = Some p" by simp
      moreover from q have e1: "members_extend ?ms ?ms1" by (rule push_step_extend)
      from extend_keeps [OF e1 Cons.prems(7)] Cons.prems(8,9)
      have "k < length ?ms1" "b1 \<in> set_batchIndex (?ms1 ! k)" "carries (?ms1 ! k) v"
        by (auto simp: carries_def)
      ultimately show ?thesis
        using Cons.IH [OF pushed(7)] Cons.prems(4,6) inv by blast
    qed
  qed
qed

lemma add_batch_loop_shape:
  "add_batch_loop strtod nodes ret t = Inr (ret', t') \<Longrightarrow>
   strip_members (s_rootItem t') = strip_members (s_rootItem t)"
proof (induction nodes arbitrary: ret t)
  case Nil
  then show ?case by simp
next
  case (Cons batch_node rest)
  from Cons.prems show ?case
  proof (cases rule: add_batch_loop_Cons_cases)
    case skipped
    with Cons.IH show ?thesis by blast
  next
    case (failed r s_root')
    with push_memberVector_shape [OF failed(2)] show ?thesis by simp
  next
    case (ingested s_root')
    from Cons.IH [OF ingested(3)] push_memberVector_shape [OF ingested(2)]
    show ?thesis by simp
  qed
qed

lemma add_batch_loop_joins:
  assumes "add_batch_loop strtod nodes ret t = Inr (ERR_None, t')"
    and "batch \<in> set nodes" and "node_name batch = C_strBatchTag"
    and "node \<in> set (node_children batch)"
    and "member_item (s_rootItem t) node = Some p" and "member_value strtod node = Some v"
    and "all_items members_ok (s_rootItem t)" and "\<not> val_isnan v"
    and "k < length (l_member (item_at (s_rootItem t) p))"
    and "b1 \<in> set_batchIndex (l_member (item_at (s_rootItem t) p) ! k)"
    and "carries (l_member (item_at (s_rootItem t) p) ! k) v"
  shows "k < length (l_member (item_at (s_rootItem t') p))
         \<and> b1 \<in> set_batchIndex (l_member (item_at (s_rootItem t') p) ! k)
         \<and> get_batchIndex batch \<in> set_batchIndex (l_member (item_at (s_rootItem t') p) ! k)
         \<and> operator_eq (s_val (l_member (item_at (s_rootItem t') p) ! k)) v = Inr True"
  using assms
proof (induction nodes arbitrary: ret t)
  case Nil
  then show ?case by simp
next
  case (Cons batch_node rest)
  let ?ms = "l_member (item_at (s_rootItem t) p)"
  let ?ms' = "l_member (item_at (s_rootItem t') p)"
  from Cons.prems(1) show ?case
  proof (cases rule: add_batch_loop_Cons_cases)
    case skipped
    with Cons.prems(2,3) have "batch \<in> set rest" by auto
    with Cons.IH [OF skipped(2)] Cons.prems(3-11) show ?thesis by blast
  next
    case (failed r s_root')
    then show ?thesis by (simp add: ERR_None_def)
  next
    case (ingested s_root')
    let ?t = "t\<lparr>s_rootItem := s_root',
                 tree_batchIndex := insert (get_batchIndex batch_node) (tree_batchIndex t)\<rparr>"
    let ?ms1 = "l_member (item_at s_root' p)"
    from Cons.prems(7) ingested(2) have inv: "all_items members_ok s_root'"
      by (rule push_memberVector_ok)
    show ?thesis
    proof (cases "batch = batch_node")
      case True
      from ingested(2) Cons.prems(4,5,6,7,8,9,10,11)
      have 1: "k < length ?ms1 \<and> b1 \<in> set_batchIndex (?ms1 ! k)
               \<and> get_batchIndex batch \<in> set_batchIndex (?ms1 ! k)
               \<and> operator_eq (s_val (?ms1 ! k)) v = Inr True"
        unfolding True by (rule push_memberVector_joins)
      from add_batch_loop_extend [OF ingested(3)] have "members_extend ?ms1 ?ms'"
        by simp
      from extend_keeps [OF this] 1 show ?thesis by auto
    next
      case False
      with Cons.prems(2) have in_rest: "batch \<in> set rest" by simp
      from ingested(2) have "member_item s_root' node = member_item (s_rootItem t) node"
        by (intro member_item_shape push_memberVector_shape)
      with Cons.prems(5) have mi: "member_item (s_rootItem ?t) node = Some p" by simp
      from ingested(2) have "members_extend ?ms ?ms1" by (rule push_memberVector_extend)
      from extend_keeps [OF this Cons.prems(9)] Cons.prems(10,11)
      have "k < length (l_member (item_at (s_rootItem ?t) p))"
        "b1 \<in> set_batchIndex (l_member (item_at (s_rootItem ?t) p) ! k)"
        "carries (l_member (item_at (s_rootItem ?t) p) ! k) v"
        by (auto simp: carries_def)
      moreover from inv have "all_items members_ok (s_rootItem ?t)" by simp
      ultimately show ?thesis
        using Cons.IH [OF ingested(3) in_rest Cons.prems(3,4) mi Cons.prems(6)] Cons.prems(8)
        by blast
    qed
  qed
qed

lemma add_batch_loop_dedup:
  assumes "add_batch_loop strtod nodes ret t = Inr (ERR_None, t')"
    and "all_items members_ok (s_rootItem t)"
    and "batch1 \<in> set nodes" and "node_name batch1 = C_strBatchTag"
    and "batch2 \<in> set nodes" and "node_name batch2 = C_strBatchTag"
    and "get_batchIndex batch1 \<noteq> get_batchIndex batch2"
    and "member1 \<in> set (node_children batch1)" and "member2 \<in> set (node_children batch2)"
    and "member_item (s_rootItem t) member1 = Some p"
    and "member_item (s_rootItem t) member2 = Some p"
    and "member_value strtod member1 = Some v" and "member_value strtod member2 = Some v"
    and "\<not> val_isnan v"
  shows "\<exists>k < length (l_member (item_at (s_rootItem t') p)).
           get_batchIndex batch1 \<in> set_batchIndex (l_member (item_at (s_rootItem t') p) ! k)
           \<and> get_batchIndex batch2 \<in> set_batchIndex (l_member (item_at (s_rootItem t') p) ! k)
           \<and> operator_eq (s_val (l_member (item_at (s_rootItem t') p) ! k)) v = Inr True"
  using assms
proof (induction nodes arbitrary: ret t)
  case Nil
  then show ?case by simp
next
  case (Cons batch_node rest)
  from Cons.prems(1) show ?case
  proof (cases rule: add_batch_loop_Cons_cases)
    case skipped
    with Cons.prems(3-6) have "batch1 \<in> set rest" "batch2 \<in> set rest" by auto
    with Cons.IH [OF skipped(2) Cons.prems(2)] Cons.prems(4,6-14) show ?thesis by blast
  next
    case (failed r s_root')
    then show ?thesis by (simp add: ERR_None_def)
  next
    case (ingested s_root')
    let ?t = "t\<lparr>s_rootItem := s_root',
                 tree_batchIndex := insert (get_batchIndex batch_node) (tree_batchIndex t)\<rparr>"
    from Cons.prems(2) ingested(2) have "all_items members_ok s_root'"
      by (rule push_memberVector_ok)
    then have inv: "all_items members_ok (s_rootItem ?t)" by simp
    have shape: "member_item (s_rootItem ?t) node = Some p"
      if "member_item (s_rootItem t) node = Some p" for node
    proof -
      from ingested(2) have "member_item s_root' node = member_item (s_rootItem t) node"
        by (intro member_item_shape push_memberVector_shape)
      with that show ?thesis by simp
    qed
    have first: ?thesis
      if head: "batch_node = a" and other: "b \<in> set rest"
        and a: "node_name a = C_strBatchTag" "ma \<in> set (node_children a)"
          "member_item (s_rootItem t) ma = Some p" "member_value strtod ma = Some v"
        and b: "node_name b = C_strBatchTag" "mb \<in> set (node_children b)"
          "member_item (s_rootItem t) mb = Some p" "member_value strtod mb = Some v"
        and ab: "{get_batchIndex a, get_batchIndex b}
                   = {get_batchIndex batch1, get_batchIndex batch2}"
      for a b ma mb
    proof -
      from a(2) head have "ma \<in> set (node_children batch_node)" by simp
      from push_memberVector_records [OF ingested(2) this a(3,4)] obtain k where
        "k < length (l_member (item_at s_root' p))"
        "get_batchIndex batch_node \<in> set_batchIndex (l_member (item_at s_root' p) ! k)"
        "carries (l_member (item_at s_root' p) ! k) v"
        by blast
      with head have
        k: "k < length (l_member (item_at (s_rootItem ?t) p))"
           "get_batchIndex a \<in> set_batchIndex (l_member (item_at (s_rootItem ?t) p) ! k)"
           "carries (l_member (item_at (s_rootItem ?t) p) ! k) v"
        by simp_all
      from b(3) have mi: "member_item (s_rootItem ?t) mb = Some p" by (rule shape)
      from add_batch_loop_joins [OF ingested(3) other b(1,2) mi b(4) inv Cons.prems(14) k]
      have "k < length (l_member (item_at (s_rootItem t') p))
         \<and> get_batchIndex a \<in> set_batchIndex (l_member (item_at (s_rootItem t') p) ! k)
         \<and> get_batchIndex b \<in> set_batchIndex (l_member (item_at (s_rootItem t') p) ! k)
         \<and> operator_eq (s_val (l_member (item_at (s_rootItem t') p) ! k)) v = Inr True" .
      moreover from ab have "get_batchIndex batch1 \<in> {get_batchIndex a, get_batchIndex b}"
        "get_batchIndex batch2 \<in> {get_batchIndex a, get_batchIndex b}" by auto
      ultimately show ?thesis by (intro exI [of _ k]) auto
    qed
    show ?thesis
    proof (cases "batch_node = batch1")
      case True
      with Cons.prems(5,7) have "batch2 \<in> set rest" by auto
      with True show ?thesis
        using Cons.prems(4) Cons.prems(8) Cons.prems(10) Cons.prems(12)
          Cons.prems(6) Cons.prems(9) Cons.prems(11) Cons.prems(13)
      proof (rule first)
        show "{get_batchIndex batch1, get_batchIndex batch2}
                = {get_batchIndex batch1, get_batchIndex batch2}" ..
      qed
    next
      case n1: False
      show ?thesis
      proof (cases "batch_node = batch2")
        case True
        with Cons.prems(3,7) have "batch1 \<in> set rest" by auto
        with True show ?thesis
          using Cons.prems(6) Cons.prems(9) Cons.prems(11) Cons.prems(13)
            Cons.prems(4) Cons.prems(8) Cons.prems(10) Cons.prems(12)
        proof (rule first)
          show "{get_batchIndex batch2, get_batchIndex batch1}
                  = {get_batchIndex batch1, get_batchIndex batch2}" by (rule insert_commute)
        qed
      next
        case n2: False
        with n1 Cons.prems(3,5) have r: "batch1 \<in> set rest" "batch2 \<in> set rest" by auto
        from Cons.prems(10) have m1: "member_item (s_rootItem ?t) member1 = Some p"
          by (rule shape)
        from Cons.prems(11) have m2: "member_item (s_rootItem ?t) member2 = Some p"
          by (rule shape)
        from ingested(3) inv r(1) Cons.prems(4) r(2) Cons.prems(6) Cons.prems(7)
          Cons.prems(8) Cons.prems(9) m1 m2 Cons.prems(12) Cons.prems(13) Cons.prems(14)
        show ?thesis by (rule Cons.IH)
      qed
    qed
  qed
qed

lemma filter_unique_nth:
  "k < length xs \<Longrightarrow> P (xs ! k) \<Longrightarrow> (\<And>j. j < length xs \<Longrightarrow> P (xs ! j) \<Longrightarrow> j = k)
   \<Longrightarrow> filter P xs = [xs ! k]"
proof (induction xs arbitrary: k)
  case Nil
  then show ?case by simp
next
  case (Cons x xs)
  show ?case
  proof (cases k)
    case 0
    have "\<not> P y" if "y \<in> set xs" for y
    proof
      assume "P y"
      from that obtain j where j: "j < length xs" "y = xs ! j"
        by (auto simp: in_set_conv_nth)
      with \<open>P y\<close> have "Suc j < length (x # xs)" "P ((x # xs) ! Suc j)" by simp_all
      then have "Suc j = k" by (rule Cons.prems(3))
      with 0 show False by simp
    qed
    then have "filter P xs = []" by (simp add: filter_empty_conv)
    with 0 Cons.prems(2) show ?thesis by simp
  next
    case (Suc k')
    have "\<not> P x"
    proof
      assume "P x"
      then have "P ((x # xs) ! 0)" by simp
      with Cons.prems(3) [of 0] Suc show False by simp
    qed
    moreover have "filter P xs = [xs ! k']"
    proof (rule Cons.IH)
      from Cons.prems(1) Suc show "k' < length xs" by simp
      from Cons.prems(2) Suc show "P (xs ! k')" by simp
      fix j assume "j < length xs" "P (xs ! j)"
      then have "Suc j < length (x # xs)" "P ((x # xs) ! Suc j)" by simp_all
      then have "Suc j = k" by (rule Cons.prems(3))
      with Suc show "j = k'" by simp
    qed
    ultimately show ?thesis using Suc by simp
  qed
qed

subsection \<open>Sequences of ingestions\<close>

lemma pushes_trans:
  "pushes strtod b c \<Longrightarrow> pushes strtod a b \<Longrightarrow> pushes strtod a c"
proof (induction rule: pushes.induct)
  case (none s_root)
  then show ?case .
next
  case (more s_root s_root1 nodes index_batch ret s_root2)
  from more.IH [OF more.prems] more.hyps(2) show ?case by (rule pushes.more)
qed

lemma pushes_one:
  "push_memberVector strtod nodes b s_root = Inr (ret, s_root') \<Longrightarrow> pushes strtod s_root s_root'"
  using pushes.none by (rule pushes.more)

lemma pushes_ok:
  "pushes strtod s_root s_root' \<Longrightarrow> all_items members_ok s_root
   \<Longrightarrow> all_items members_ok s_root'"
proof (induction rule: pushes.induct)
  case (none s_root)
  then show ?case .
next
  case (more s_root s_root1 nodes index_batch ret s_root2)
  from more.IH [OF more.prems] more.hyps(2) show ?case by (rule push_memberVector_ok)
qed

lemma pushes_extend:
  "pushes strtod s_root s_root' \<Longrightarrow>
   members_extend (l_member (item_at s_root q)) (l_member (item_at s_root' q))"
proof (induction rule: pushes.induct)
  case (none s_root)
  show ?case by (rule members_extend_refl)
next
  case (more s_root s_root1 nodes index_batch ret s_root2)
  from more.IH push_memberVector_extend [OF more.hyps(2)] show ?case
    by (rule members_extend_trans)
qed

lemma pushes_shape:
  "pushes strtod s_root s_root' \<Longrightarrow> strip_members s_root' = strip_members s_root"
proof (induction rule: pushes.induct)
  case (none s_root)
  show ?case ..
next
  case (more s_root s_root1 nodes index_batch ret s_root2)
  from push_memberVector_shape [OF more.hyps(2)] more.IH show ?case by simp
qed

lemma add_batch_loop_pushes:
  "add_batch_loop strtod nodes ret t = Inr (ret', t') \<Longrightarrow>
   pushes strtod (s_rootItem t) (s_rootItem t')"
proof (induction nodes arbitrary: ret t)
  case Nil
  then show ?case by (auto intro: pushes.none)
next
  case (Cons batch_node rest)
  from Cons.prems show ?case
  proof (cases rule: add_batch_loop_Cons_cases)
    case skipped
    with Cons.IH show ?thesis by blast
  next
    case (failed r s_root')
    from failed(2) have "pushes strtod (s_rootItem t) s_root'" by (rule pushes_one)
    with failed(5) show ?thesis by simp
  next
    case (ingested s_root')
    from ingested(2) have 1: "pushes strtod (s_rootItem t) s_root'" by (rule pushes_one)
    from Cons.IH [OF ingested(3)] have "pushes strtod s_root' (s_rootItem t')" by simp
    then show ?thesis using 1 by (rule pushes_trans)
  qed
qed

lemma add_batch_fromXmlFile_pushes:
  "add_batch_fromXmlFile strtod root_node t = Inr (ret, t') \<Longrightarrow>
   pushes strtod (s_rootItem t) (s_rootItem t')"
  by (auto simp: add_batch_fromXmlFile_def split: option.splits intro: add_batch_loop_pushes)

lemma add_batch_loop_ingests:
  "add_batch_loop strtod nodes ret t = Inr (ERR_None, t') \<Longrightarrow> batch \<in> set nodes \<Longrightarrow>
   node_name batch = C_strBatchTag \<Longrightarrow>
   \<exists>ra rb. pushes strtod (s_rootItem t) ra
      \<and> push_memberVector strtod (node_children batch) (get_batchIndex batch) ra
            = Inr (ERR_None, rb)
      \<and> pushes strtod rb (s_rootItem t')"
proof (induction nodes arbitrary: ret t)
  case Nil
  then show ?case by simp
next
  case (Cons batch_node rest)
  from Cons.prems(1) show ?case
  proof (cases rule: add_batch_loop_Cons_cases)
    case skipped
    with Cons.prems(2,3) have "batch \<in> set rest" by auto
    with Cons.IH [OF skipped(2)] Cons.prems(3) show ?thesis by blast
  next
    case (failed r s_root')
    then show ?thesis by (simp add: ERR_None_def)
  next
    case (ingested s_root')
    let ?t = "t\<lparr>s_rootItem := s_root',
                 tree_batchIndex := insert (get_batchIndex batch_node) (tree_batchIndex t)\<rparr>"
    show ?thesis
    proof (cases "batch = batch_node")
      case True
      from add_batch_loop_pushes [OF ingested(3)]
      have "pushes strtod s_root' (s_rootItem t')" by simp
      with ingested(2) True pushes.none [of strtod "s_rootItem t"] show ?thesis by blast
    next
      case False
      with Cons.prems(2) have "batch \<in> set rest" by simp
      from Cons.IH [OF ingested(3) this Cons.prems(3)] obtain ra rb where
        1: "pushes strtod s_root' ra"
        and 2: "push_memberVector strtod (node_children batch) (get_batchIndex batch) ra
                  = Inr (ERR_None, rb)"
        and 3: "pushes strtod rb (s_rootItem t')"
        by auto
      from ingested(2) have "pushes strtod (s_rootItem t) s_root'" by (rule pushes_one)
      with 1 have "pushes strtod (s_rootItem t) ra" by (rule pushes_trans)
      with 2 3 show ?thesis by blast
    qed
  qed
qed

subsection \<open>Two ingested batches with the same value for one item\<close>

lemma dedup_pushes:
  assumes inv: "all_items members_ok r0"
    and push1: "push_memberVector strtod nodes1 b1 r0 = Inr (ERR_None, r1)"
    and between: "pushes strtod r1 r2"
    and push2: "push_memberVector strtod nodes2 b2 r2 = Inr (ERR_None, r3)"
    and after: "pushes strtod r3 r4"
    and m1: "member1 \<in> set nodes1" and m2: "member2 \<in> set nodes2"
    and i1: "member_item r0 member1 = Some p" and i2: "member_item r0 member2 = Some p"
    and v1: "member_value strtod member1 = Some v" and v2: "member_value strtod member2 = Some v"
    and nan: "\<not> val_isnan v"
  shows "\<exists>m. filter (\<lambda>m. operator_eq (s_val m) v = Inr True) (l_member (item_at r4 p)) = [m]
             \<and> b1 \<in> set_batchIndex m \<and> b2 \<in> set_batchIndex m
             \<and> (e_type v \<noteq> VAL_Double \<longrightarrow> s_val m = v)"
proof -
  let ?P = "\<lambda>m. operator_eq (s_val m) v = Inr True"
  let ?ms = "\<lambda>r. l_member (item_at r p)"
  from push1 m1 i1 v1 obtain k where k1: "k < length (?ms r1)"
    "b1 \<in> set_batchIndex (?ms r1 ! k)" "carries (?ms r1 ! k) v"
    using push_memberVector_records by blast
  from between have e12: "members_extend (?ms r1) (?ms r2)" by (rule pushes_extend)
  from extend_keeps [OF e12 k1(1)] k1(2,3)
  have k2: "k < length (?ms r2)" "b1 \<in> set_batchIndex (?ms r2 ! k)" "carries (?ms r2 ! k) v"
    by (auto simp: carries_def)
  from push1 have p01: "pushes strtod r0 r1" by (rule pushes_one)
  from between p01 have p02: "pushes strtod r0 r2" by (rule pushes_trans)
  from p02 inv have inv2: "all_items members_ok r2" by (rule pushes_ok)
  from p02 have "strip_members r2 = strip_members r0" by (rule pushes_shape)
  then have "member_item r2 member2 = member_item r0 member2" by (rule member_item_shape)
  with i2 have i2': "member_item r2 member2 = Some p" by simp
  from push2 m2 i2' v2 inv2 nan k2
  have k3: "k < length (?ms r3) \<and> b1 \<in> set_batchIndex (?ms r3 ! k)
            \<and> b2 \<in> set_batchIndex (?ms r3 ! k) \<and> ?P (?ms r3 ! k)"
    by (rule push_memberVector_joins)
  from after have e34: "members_extend (?ms r3) (?ms r4)" by (rule pushes_extend)
  from extend_keeps [OF e34] k3
  have k: "k < length (?ms r4)" "b1 \<in> set_batchIndex (?ms r4 ! k)"
    "b2 \<in> set_batchIndex (?ms r4 ! k)" "?P (?ms r4 ! k)"
    by auto
  from push2 have "pushes strtod r2 r3" by (rule pushes_one)
  from this p02 have "pushes strtod r0 r3" by (rule pushes_trans)
  with after have p04: "pushes strtod r0 r4" by (rule pushes_trans)
  from p04 inv have inv4: "all_items members_ok r4" by (rule pushes_ok)
  from i2' have "valid_path r2 p"
    by (auto simp: member_item_def split: option.splits intro: search_item_byName_valid)
  from p04 have "strip_members r4 = strip_members r0" by (rule pushes_shape)
  then have "member_item r4 member1 = member_item r0 member1" by (rule member_item_shape)
  with i1 have "valid_path r4 p"
    by (auto simp: member_item_def split: option.splits intro: search_item_byName_valid)
  with inv4 have ok: "members_ok (?ms r4)"
    using all_items_item_at all_items_members by blast
  then have d: "members_distinct (?ms r4)" and w: "\<forall>m \<in> set (?ms r4). wf_val (s_val m)"
    by (simp_all add: members_ok_def)
  from v1 have wf: "wf_val v" by (rule member_value_wf)
  from w k(1) have wk: "wf_val (s_val (?ms r4 ! k))" by simp
  have uniq: "j = k" if j: "j < length (?ms r4)" and Pj: "?P (?ms r4 ! j)" for j
  proof (rule ccontr)
    assume "j \<noteq> k"
    from w j have wj: "wf_val (s_val (?ms r4 ! j))" by simp
    from \<open>j \<noteq> k\<close> consider "j < k" | "k < j" by linarith
    then show False
    proof cases
      case 1
      from wj wk wf Pj k(4)
      have "operator_eq (s_val (?ms r4 ! j)) (s_val (?ms r4 ! k)) = Inr True"
        by (rule operator_eq_euclid)
      with members_distinct_nth [OF d 1 k(1)] show False by simp
    next
      case 2
      from wk wj wf k(4) Pj
      have "operator_eq (s_val (?ms r4 ! k)) (s_val (?ms r4 ! j)) = Inr True"
        by (rule operator_eq_euclid)
      with members_distinct_nth [OF d 2 j] show False by simp
    qed
  qed
  from k(1,4) uniq have "filter ?P (?ms r4) = [?ms r4 ! k]" by (rule filter_unique_nth)
  moreover have "s_val (?ms r4 ! k) = v" if "e_type v \<noteq> VAL_Double"
    using operator_eq_True_wf [OF wk wf k(4)] that by auto
  ultimately show ?thesis using k(2,3) by blast
qed


text \<open>
  C6. From a reachable state and after any ingestions, let a batch of index \<open>b1\<close> be
  ingested with success, that is, let its call of \<open>_push_memberVector\<close> return
  \<open>ERR_None\<close>; after any further ingestions let a batch of index \<open>b2\<close> be ingested with
  success; and let any ingestions follow, whatever they return. If both batches hold a
  member node for the same item with the same value, of type \<open>int\<close>, \<open>string\<close> or
  \<open>double\<close> and not a NaN, then exactly one member of that item compares equal to the
  value; its index set holds both batch indices; and unless the value is a \<open>double\<close>,
  the member holds that very value. The statement is symmetric in the two batches, so it
  does not matter which of them is called the first.
\<close>

theorem dedup_two_batches:
  assumes "reachable strtod t"
    and "pushes strtod (s_rootItem t) r0"
    and "push_memberVector strtod nodes1 b1 r0 = Inr (ERR_None, r1)"
    and "pushes strtod r1 r2"
    and "push_memberVector strtod nodes2 b2 r2 = Inr (ERR_None, r3)"
    and "pushes strtod r3 r4"
    and "b1 \<noteq> b2"
    and "member1 \<in> set nodes1" and "member2 \<in> set nodes2"
    and "member_item (s_rootItem t) member1 = Some p"
    and "member_item (s_rootItem t) member2 = Some p"
    and "member_value strtod member1 = Some v" and "member_value strtod member2 = Some v"
    and "e_type v = VAL_Int \<or> e_type v = VAL_String \<or> e_type v = VAL_Double"
    and "\<not> val_isnan v"
  shows "\<exists>m. filter (\<lambda>m. operator_eq (s_val m) v = Inr True) (l_member (item_at r4 p)) = [m]
             \<and> b1 \<in> set_batchIndex m \<and> b2 \<in> set_batchIndex m
             \<and> (e_type v \<noteq> VAL_Double \<longrightarrow> s_val m = v)"
proof -
  from assms(1) have "all_items members_ok (s_rootItem t)" by (rule reachable_ok)
  with assms(2) have inv: "all_items members_ok r0" by (rule pushes_ok)
  from assms(2) have "strip_members r0 = strip_members (s_rootItem t)" by (rule pushes_shape)
  then have "member_item r0 node = member_item (s_rootItem t) node" for node
    by (rule member_item_shape)
  with assms(10,11) have "member_item r0 member1 = Some p" "member_item r0 member2 = Some p"
    by simp_all
  with inv assms(3,4,5,6) assms(8,9) show ?thesis
    using assms(12,13,15) by (rule dedup_pushes)
qed

theorem dedup_two_batches_witness:
  "reachable (\<lambda>s. 0) tree_student
   \<and> add_batch_fromXmlFile (\<lambda>s. 0) (Some values_alice_twice_teacher) tree_student
       = Inr (1, tree_alice_twice)
   \<and> push_memberVector (\<lambda>s. 0)
        [Xml_Node ''Member'' ''Alice'' [(''name'', ''student''), (''type'', ''string'')] []] 1
        (s_rootItem tree_student)
       = Inr (ERR_None,
              Tree_Item 0 [] []
                [Tree_Item 1 ''student''
                   [Tree_Member (Val_String (''Alice'' @ [CHR 0x00])) {1}] []])
   \<and> push_memberVector (\<lambda>s. 0)
        [Xml_Node ''Member'' ''Alice'' [(''name'', ''student''), (''type'', ''string'')] []] 2
        (Tree_Item 0 [] []
           [Tree_Item 1 ''student''
              [Tree_Member (Val_String (''Alice'' @ [CHR 0x00])) {1}] []])
       = Inr (ERR_None, s_rootItem tree_alice_twice)
   \<and> push_memberVector (\<lambda>s. 0)
        [Xml_Node ''Member'' ''Carol'' [(''name'', ''teacher''), (''type'', ''string'')] []] 3
        (s_rootItem tree_alice_twice)
       = Inr (ERR_IllegalId, s_rootItem tree_alice_twice)
   \<and> member_item (s_rootItem tree_student)
        (Xml_Node ''Member'' ''Alice'' [(''name'', ''student''), (''type'', ''string'')] [])
       = Some [0]
   \<and> member_value (\<lambda>s. 0)
        (Xml_Node ''Member'' ''Alice'' [(''name'', ''student''), (''type'', ''string'')] [])
       = Some (Val_String (''Alice'' @ [CHR 0x00]))
   \<and> l_member (item_at (s_rootItem tree_alice_twice) [0])
       = [Tree_Member (Val_String (''Alice'' @ [CHR 0x00])) {1, 2}]
   \<and> (\<exists>m. filter (\<lambda>m. operator_eq (s_val m) (Val_String (''Alice'' @ [CHR 0x00])) = Inr True)
              (l_member (item_at (s_rootItem tree_alice_twice) [0])) = [m]
            \<and> 1 \<in> set_batchIndex m \<and> 2 \<in> set_batchIndex m
            \<and> s_val m = Val_String (''Alice'' @ [CHR 0x00]))"
proof -
  let ?alice = "Xml_Node ''Member'' ''Alice'' [(''name'', ''student''), (''type'', ''string'')] []"
  let ?carol = "Xml_Node ''Member'' ''Carol'' [(''name'', ''teacher''), (''type'', ''string'')] []"
  let ?v = "Val_String (''Alice'' @ [CHR 0x00])"
  let ?r0 = "s_rootItem tree_student"
  let ?r1 = "Tree_Item 0 [] [] [Tree_Item 1 ''student'' [Tree_Member ?v {1}] []]"
  let ?r3 = "s_rootItem tree_alice_twice"
  have r: "reachable (\<lambda>s. 0) tree_student" by (rule reachable_tree_student)
  have call: "add_batch_fromXmlFile (\<lambda>s. 0) (Some values_alice_twice_teacher) tree_student
                = Inr (1, tree_alice_twice)"
    by (simp add: values_alice_twice_teacher_def tree_student_def tree_alice_twice_def
        eval_defs insert_commute)
  have p1: "push_memberVector (\<lambda>s. 0) [?alice] 1 ?r0 = Inr (ERR_None, ?r1)"
    by (simp add: tree_student_def eval_defs)
  have p2: "push_memberVector (\<lambda>s. 0) [?alice] 2 ?r1 = Inr (ERR_None, ?r3)"
    by (simp add: tree_alice_twice_def eval_defs insert_commute)
  have p3: "push_memberVector (\<lambda>s. 0) [?carol] 3 ?r3 = Inr (ERR_IllegalId, ?r3)"
    by (simp add: tree_alice_twice_def eval_defs)
  have before: "pushes (\<lambda>s. 0) ?r0 ?r0" and between: "pushes (\<lambda>s. 0) ?r1 ?r1"
    by (rule pushes.none)+
  have after: "pushes (\<lambda>s. 0) ?r3 ?r3"
    using pushes.none p3 by (rule pushes.more)
  have ne: "(1::32 word) \<noteq> 2" by simp
  have m: "?alice \<in> set [?alice]" by simp
  have mi: "member_item ?r0 ?alice = Some [0]"
    by (simp add: member_item_def tree_student_def eval_defs)
  have mv: "member_value (\<lambda>s. 0) ?alice = Some ?v"
    by (simp add: member_value_def eval_defs)
  have ty: "e_type ?v = VAL_Int \<or> e_type ?v = VAL_String \<or> e_type ?v = VAL_Double" by simp
  have nan: "\<not> val_isnan ?v" by simp
  have l: "l_member (item_at ?r3 [0]) = [Tree_Member ?v {1, 2}]"
    by (simp add: tree_alice_twice_def)
  have e: "e_type ?v \<noteq> VAL_Double" by simp
  from dedup_two_batches [OF r before p1 between p2 after ne m m mi mi mv mv ty nan] e
  have "\<exists>m. filter (\<lambda>m. operator_eq (s_val m) ?v = Inr True) (l_member (item_at ?r3 [0])) = [m]
            \<and> 1 \<in> set_batchIndex m \<and> 2 \<in> set_batchIndex m \<and> s_val m = ?v"
    by simp
  with r call p1 p2 p3 mi mv l show ?thesis by blast
qed

text \<open>
  Every call of \<open>add_batch_fromXmlFile\<close> is such a sequence of calls of
  \<open>_push_memberVector\<close>, and in a call that returns \<open>ERR_None\<close> every batch of the
  document was ingested with success. So the statement holds in particular for two
  batches of two documents ingested one after the other.
\<close>

lemma dedup_two_documents:
  assumes "reachable strtod t"
    and "add_batch_fromXmlFile strtod (Some doc1) t = Inr (ERR_None, t1)"
    and "add_batch_fromXmlFile strtod (Some doc2) t1 = Inr (ERR_None, t2)"
    and "batch1 \<in> set (node_children doc1)" and "node_name batch1 = C_strBatchTag"
    and "batch2 \<in> set (node_children doc2)" and "node_name batch2 = C_strBatchTag"
    and "member1 \<in> set (node_children batch1)" and "member2 \<in> set (node_children batch2)"
    and "member_item (s_rootItem t) member1 = Some p"
    and "member_item (s_rootItem t) member2 = Some p"
    and "member_value strtod member1 = Some v" and "member_value strtod member2 = Some v"
    and "\<not> val_isnan v"
  shows "\<exists>m. filter (\<lambda>m. operator_eq (s_val m) v = Inr True)
                (l_member (item_at (s_rootItem t2) p)) = [m]
             \<and> get_batchIndex batch1 \<in> set_batchIndex m
             \<and> get_batchIndex batch2 \<in> set_batchIndex m
             \<and> (e_type v \<noteq> VAL_Double \<longrightarrow> s_val m = v)"
proof -
  from assms(2) have "add_batch_loop strtod (node_children doc1) ERR_None t = Inr (ERR_None, t1)"
    by (simp add: add_batch_fromXmlFile_def)
  from add_batch_loop_ingests [OF this assms(4,5)] obtain r0 r1 where
    a: "pushes strtod (s_rootItem t) r0"
    "push_memberVector strtod (node_children batch1) (get_batchIndex batch1) r0
       = Inr (ERR_None, r1)"
    "pushes strtod r1 (s_rootItem t1)"
    by auto
  from assms(3) have "add_batch_loop strtod (node_children doc2) ERR_None t1 = Inr (ERR_None, t2)"
    by (simp add: add_batch_fromXmlFile_def)
  from add_batch_loop_ingests [OF this assms(6,7)] obtain r2 r3 where
    b: "pushes strtod (s_rootItem t1) r2"
    "push_memberVector strtod (node_children batch2) (get_batchIndex batch2) r2
       = Inr (ERR_None, r3)"
    "pushes strtod r3 (s_rootItem t2)"
    by auto
  from b(1) a(3) have between: "pushes strtod r1 r2" by (rule pushes_trans)
  from assms(1) have "all_items members_ok (s_rootItem t)" by (rule reachable_ok)
  with a(1) have inv: "all_items members_ok r0" by (rule pushes_ok)
  from a(1) have "strip_members r0 = strip_members (s_rootItem t)" by (rule pushes_shape)
  then have "member_item r0 node = member_item (s_rootItem t) node" for node
    by (rule member_item_shape)
  with assms(10,11) have "member_item r0 member1 = Some p" "member_item r0 member2 = Some p"
    by simp_all
  with inv a(2) between b(2,3) assms(8,9) show ?thesis
    using assms(12,13,14) by (rule dedup_pushes)
qed

text \<open>
  It holds as well for two batches of one document that is ingested with success,
  whichever of them comes first.
\<close>

lemma dedup_one_document:
  assumes "reachable strtod t"
    and "add_batch_fromXmlFile strtod (Some doc) t = Inr (ERR_None, t')"
    and "batch1 \<in> set (node_children doc)" and "node_name batch1 = C_strBatchTag"
    and "batch2 \<in> set (node_children doc)" and "node_name batch2 = C_strBatchTag"
    and "get_batchIndex batch1 \<noteq> get_batchIndex batch2"
    and "member1 \<in> set (node_children batch1)" and "member2 \<in> set (node_children batch2)"
    and "member_item (s_rootItem t) member1 = Some p"
    and "member_item (s_rootItem t) member2 = Some p"
    and "member_value strtod member1 = Some v" and "member_value strtod member2 = Some v"
    and "\<not> val_isnan v"
  shows "\<exists>m. filter (\<lambda>m. operator_eq (s_val m) v = Inr True)
                (l_member (item_at (s_rootItem t') p)) = [m]
             \<and> get_batchIndex batch1 \<in> set_batchIndex m
             \<and> get_batchIndex batch2 \<in> set_batchIndex m
             \<and> (e_type v \<noteq> VAL_Double \<longrightarrow> s_val m = v)"
proof -
  let ?ms = "l_member (item_at (s_rootItem t') p)"
  let ?P = "\<lambda>m. operator_eq (s_val m) v = Inr True"
  from assms(1) have inv: "all_items members_ok (s_rootItem t)" by (rule reachable_ok)
  from assms(2) have loop: "add_batch_loop strtod (node_children doc) ERR_None t
                              = Inr (ERR_None, t')"
    by (simp add: add_batch_fromXmlFile_def)
  from loop inv assms(3-14) obtain k where k: "k < length ?ms"
    "get_batchIndex batch1 \<in> set_batchIndex (?ms ! k)"
    "get_batchIndex batch2 \<in> set_batchIndex (?ms ! k)" "?P (?ms ! k)"
    using add_batch_loop_dedup by blast
  from inv loop have inv': "all_items members_ok (s_rootItem t')" by (rule add_batch_loop_ok)
  from assms(10) have "valid_path (s_rootItem t) p"
    by (auto simp: member_item_def split: option.splits intro: search_item_byName_valid)
  moreover from loop have "strip_members (s_rootItem t') = strip_members (s_rootItem t)"
    by (rule add_batch_loop_shape)
  then have "member_item (s_rootItem t') member1 = member_item (s_rootItem t) member1"
    by (rule member_item_shape)
  with assms(10) have "valid_path (s_rootItem t') p"
    by (auto simp: member_item_def split: option.splits intro: search_item_byName_valid)
  with inv' have ok: "members_ok ?ms"
    using all_items_item_at all_items_members by blast
  then have d: "members_distinct ?ms" and w: "\<forall>m \<in> set ?ms. wf_val (s_val m)"
    by (simp_all add: members_ok_def)
  from assms(12) have wf: "wf_val v" by (rule member_value_wf)
  from w k(1) have wk: "wf_val (s_val (?ms ! k))" by simp
  have uniq: "j = k" if j: "j < length ?ms" and Pj: "?P (?ms ! j)" for j
  proof (rule ccontr)
    assume "j \<noteq> k"
    from w j have wj: "wf_val (s_val (?ms ! j))" by simp
    from \<open>j \<noteq> k\<close> consider "j < k" | "k < j" by linarith
    then show False
    proof cases
      case 1
      from wj wk wf Pj k(4) have "operator_eq (s_val (?ms ! j)) (s_val (?ms ! k)) = Inr True"
        by (rule operator_eq_euclid)
      with members_distinct_nth [OF d 1 k(1)] show False by simp
    next
      case 2
      from wk wj wf k(4) Pj have "operator_eq (s_val (?ms ! k)) (s_val (?ms ! j)) = Inr True"
        by (rule operator_eq_euclid)
      with members_distinct_nth [OF d 2 j] show False by simp
    qed
  qed
  from k(1,4) uniq have "filter ?P ?ms = [?ms ! k]" by (rule filter_unique_nth)
  moreover have "s_val (?ms ! k) = v" if "e_type v \<noteq> VAL_Double"
    using operator_eq_True_wf [OF wk wf k(4)] that by auto
  ultimately show ?thesis using k(2,3) by blast
qed

text \<open>
  With a type that \<open>C_arrValTypeStr\<close> does not list, the second of two batches for one
  item is not ingested at all: the comparison of the two values ends without a result.
\<close>

lemma untyped_twice_no_return:
  "add_batch_fromXmlFile strtod (Some values_untyped_twice) tree_student = Inl MissingReturn"
  by (simp add: values_untyped_twice_def tree_student_def eval_defs Let_def)

text \<open>
  The restriction to values that are not NaN is needed: when batches 1 and 2 both supply
  the \<open>double\<close> written \<open>nan\<close> for \<open>student\<close>, both are ingested with success, and
  the item ends with two members of the same bit pattern, one per batch.
\<close>

theorem dedup_nan_counterexample:
  "build_tree_fromXmlFile (Some schema_student) xmlTree_new = Inr (ERR_None, tree_student)
   \<and> add_batch_fromXmlFile strtod_nan (Some values_nan_twice) tree_student
       = Inr (ERR_None, tree_nan_twice)
   \<and> member_value strtod_nan
        (Xml_Node ''Member'' ''nan'' [(''name'', ''student''), (''type'', ''double'')] [])
       = Some (Val_Double 0x7FF8000000000000)
   \<and> l_member (item_at (s_rootItem tree_nan_twice) [0])
       = [Tree_Member (Val_Double 0x7FF8000000000000) {1},
          Tree_Member (Val_Double 0x7FF8000000000000) {2}]"
proof (intro conjI)
  show "build_tree_fromXmlFile (Some schema_student) xmlTree_new = Inr (ERR_None, tree_student)"
    by (rule build_schema_student)
  have nan: "double_isnan 0x7FF8000000000000" by (simp add: double_isnan_def)
  show "add_batch_fromXmlFile strtod_nan (Some values_nan_twice) tree_student
          = Inr (ERR_None, tree_nan_twice)"
    by (simp add: values_nan_twice_def tree_student_def tree_nan_twice_def strtod_nan_def
        eval_defs double_eq_def nan insert_commute Let_def)
  show "member_value strtod_nan
          (Xml_Node ''Member'' ''nan'' [(''name'', ''student''), (''type'', ''double'')] [])
        = Some (Val_Double 0x7FF8000000000000)"
    by (simp add: member_value_def strtod_nan_def eval_defs)
  show "l_member (item_at (s_rootItem tree_nan_twice) [0])
          = [Tree_Member (Val_Double 0x7FF8000000000000) {1},
             Tree_Member (Val_Double 0x7FF8000000000000) {2}]"
    by (simp add: tree_nan_twice_def)
qed

end
